theory Spec2Isabelle
  imports Complex_Main "HOL-Library.Word" "HOL-Library.List_Lexorder" "HOL-Library.Signed_Division"
begin

section \<open>Bytes, positions and the Remote order (shard/ring.go)\<close>

text \<open>
  A position is a Go byte slice, an address a Go string (a sequence of bytes).
  \<open>bytes_Compare\<close> is Go's \<open>bytes.Compare\<close>: the first differing byte decides, compared
  as an unsigned value, and a proper prefix is the smaller slice.
\<close>

type_synonym byte = "8 word"
type_synonym pos = "byte list"

fun bytes_Compare :: "byte list \<Rightarrow> byte list \<Rightarrow> int" where
  "bytes_Compare [] [] = 0"
| "bytes_Compare [] (y # ys) = - 1"
| "bytes_Compare (x # xs) [] = 1"
| "bytes_Compare (x # xs) (y # ys) =
     (if x < y then - 1 else if y < x then 1 else bytes_Compare xs ys)"

text \<open>The conversion \<open>[]byte(s)\<close> of a Go string.\<close>

definition string_bytes :: "string \<Rightarrow> byte list" where
  "string_bytes s = map (\<lambda>c. word_of_nat (of_char c)) s"

record Remote =
  Pos :: pos
  Addr :: string

text \<open>\<open>Remote.less\<close>: by position, ties broken by address.\<close>

definition Remote_less :: "Remote \<Rightarrow> Remote \<Rightarrow> bool" where
  "Remote_less self other =
     (let val = bytes_Compare (Pos self) (Pos other);
          val = (if val = 0
                 then bytes_Compare (string_bytes (Addr self)) (string_bytes (Addr other))
                 else val)
      in val < 0)"

section \<open>Binary search (Go's sort.Search)\<close>

text \<open>
  \<open>sort.Search n f\<close> of the Go standard library keeps a window \<open>[i, j)\<close>, probes its
  middle \<open>h\<close> and continues in \<open>[h + 1, j)\<close> when \<open>f h\<close> is false, in \<open>[i, h)\<close> otherwise.
  It is modelled as it is implemented, so that its answer on a predicate that is not
  monotone (an unsorted ring) is the one the program gets.
\<close>

function Search_loop :: "(nat \<Rightarrow> bool) \<Rightarrow> nat \<Rightarrow> nat \<Rightarrow> nat" where
  "Search_loop f i j =
     (if i < j
      then (let h = (i + j) div 2
            in if \<not> f h then Search_loop f (h + 1) j else Search_loop f i h)
      else i)"
  by pat_completeness auto
termination
  by (relation "measure (\<lambda>(f, i, j). j - i)") auto

definition Search :: "nat \<Rightarrow> (nat \<Rightarrow> bool) \<Rightarrow> nat" where
  "Search n f = Search_loop f 0 n"

section \<open>The ring (shard/ring.go)\<close>

text \<open>
  A ring is the slice \<open>self.Nodes\<close>. The run-time panics of Go that the ring's methods can
  reach are results of the model.
\<close>

datatype error = SliceBoundsOutOfRange | IndexOutOfRange

subsection \<open>Ring.remove and Ring.add\<close>

text \<open>
  Both methods range over \<open>self.Nodes\<close> and shorten it inside the loop with
  \<open>append(self.Nodes[:index], self.Nodes[index+1:]...)\<close>. Go evaluates the range
  expression once: the loop visits the indices \<open>0 .. n - 1\<close> of the original slice header
  and reads \<open>current\<close> from the backing array, which the append rewrites in place. The
  loop state is therefore the backing array \<open>arr\<close> (its first \<open>n\<close> cells) and the current
  length \<open>m\<close> of \<open>self.Nodes\<close>, which is \<open>take m arr\<close>.

  \<open>delete_in_place arr m index\<close> is the array after that append: the cells
  \<open>index + 1 .. m - 1\<close> move one place down, the cell \<open>m - 1\<close> and those after it keep
  their content. The slice expression \<open>self.Nodes[index+1:]\<close> panics when
  \<open>index + 1\<close> exceeds the current length.
\<close>

definition delete_in_place :: "Remote list \<Rightarrow> nat \<Rightarrow> nat \<Rightarrow> Remote list" where
  "delete_in_place arr m index =
     take index arr @ take (m - (index + 1)) (drop (index + 1) arr) @ drop (m - 1) arr"

function remove_loop :: "Remote \<Rightarrow> nat \<Rightarrow> Remote list \<Rightarrow> nat \<Rightarrow> nat \<Rightarrow> error + Remote list" where
  "remove_loop remote n arr m index =
     (if index < n
      then (if Addr (arr ! index) = Addr remote
            then (if index + 1 \<le> m
                  then remove_loop remote n (delete_in_place arr m index) (m - 1) (index + 1)
                  else Inl SliceBoundsOutOfRange)
            else remove_loop remote n arr m (index + 1))
      else Inr (take m arr))"
  by pat_completeness auto
termination
  by (relation "measure (\<lambda>(remote, n, arr, m, index). n - index)") auto

definition Ring_remove :: "Remote list \<Rightarrow> Remote \<Rightarrow> error + Remote list" where
  "Ring_remove Nodes remote = remove_loop remote (length Nodes) Nodes (length Nodes) 0"

text \<open>
  The loop of \<open>Ring.add\<close> can also leave the method (\<open>return\<close>) when it meets the remote
  itself.
\<close>

datatype loop_exit = Return | Fallthrough

function add_loop ::
  "Remote \<Rightarrow> nat \<Rightarrow> Remote list \<Rightarrow> nat \<Rightarrow> nat \<Rightarrow> error + (loop_exit \<times> Remote list)" where
  "add_loop remote n arr m index =
     (if index < n
      then (if Addr (arr ! index) = Addr remote
            then (if bytes_Compare (Pos (arr ! index)) (Pos remote) = 0
                  then Inr (Return, take m arr)
                  else if index + 1 \<le> m
                  then add_loop remote n (delete_in_place arr m index) (m - 1) (index + 1)
                  else Inl SliceBoundsOutOfRange)
            else add_loop remote n arr m (index + 1))
      else Inr (Fallthrough, take m arr))"
  by pat_completeness auto
termination
  by (relation "measure (\<lambda>(remote, n, arr, m, index). n - index)") auto

definition insert_sorted :: "Remote list \<Rightarrow> Remote \<Rightarrow> Remote list" where
  "insert_sorted Nodes remote =
     (let i = Search (length Nodes) (\<lambda>i. Remote_less remote (Nodes ! i))
      in if i < length Nodes
         then take i Nodes @ ([remote] @ drop i Nodes)
         else Nodes @ [remote])"

definition Ring_add :: "Remote list \<Rightarrow> Remote \<Rightarrow> error + Remote list" where
  "Ring_add Nodes remote =
     (case add_loop remote (length Nodes) Nodes (length Nodes) 0 of
        Inl e \<Rightarrow> Inl e
      | Inr (Return, Nodes') \<Rightarrow> Inr Nodes'
      | Inr (Fallthrough, Nodes') \<Rightarrow> Inr (insert_sorted Nodes' remote))"

subsection \<open>Ring.indices\<close>

text \<open>The three results are Go ints; \<open>at\<close> is \<open>- 1\<close> when no entry has the position.\<close>

definition Ring_indices :: "Remote list \<Rightarrow> pos \<Rightarrow> int \<times> int \<times> int" where
  "Ring_indices Nodes pos =
     (let n = length Nodes;
          i = Search n (\<lambda>i. bytes_Compare pos (Pos (Nodes ! i)) < 1)
      in if i = n then (int n - 1, - 1, 0)
         else (let before = (if i = 0 then int n - 1 else int i - 1);
                   cmp = bytes_Compare pos (Pos (Nodes ! i))
               in if cmp = 0
                  then (let j = Search (n - i) (\<lambda>k. bytes_Compare pos (Pos (Nodes ! (k + i))) < 0) + i
                        in (before, int i, if j < n then int j else 0))
                  else (before, - 1, int i)))"

subsection \<open>Ring.clean\<close>

text \<open>
  The slice expression \<open>s[lo:hi]\<close>, which panics unless \<open>0 \<le> lo \<le> hi\<close> and \<open>hi\<close> is within
  the slice. (Go allows \<open>hi\<close> up to the capacity; \<open>Ring.clean\<close> never asks for more than
  the length, since every index it uses is below the length of a non-empty ring.)
\<close>

definition go_slice :: "'a list \<Rightarrow> int \<Rightarrow> int \<Rightarrow> error + 'a list" where
  "go_slice s lo hi =
     (if 0 \<le> lo \<and> lo \<le> hi \<and> hi \<le> int (length s)
      then Inr (take (nat hi - nat lo) (drop (nat lo) s))
      else Inl SliceBoundsOutOfRange)"

definition Ring_clean :: "Remote list \<Rightarrow> pos \<Rightarrow> pos \<Rightarrow> error + Remote list" where
  "Ring_clean Nodes predecessor successor =
     (let from = snd (snd (Ring_indices Nodes predecessor));
          to = fst (Ring_indices Nodes successor);
          at_index = fst (snd (Ring_indices Nodes successor));
          to = (if at_index \<noteq> - 1 then at_index else to)
      in if from > to
         then go_slice Nodes to from
         else (case go_slice Nodes 0 from of
                 Inl e \<Rightarrow> Inl e
               | Inr front \<Rightarrow>
                   (case go_slice Nodes to (int (length Nodes)) of
                      Inl e \<Rightarrow> Inl e
                    | Inr back \<Rightarrow> Inr (front @ back))))"

subsection \<open>Ring.getSlot\<close>

text \<open>
  \<open>big.Int.SetBytes\<close> reads a big-endian unsigned integer, \<open>big.Int.Bytes\<close> writes the
  absolute value big-endian without leading zero bytes.
\<close>

definition SetBytes :: "byte list \<Rightarrow> int" where
  "SetBytes buf = foldl (\<lambda>acc b. acc * 256 + uint b) 0 buf"

function nat_Bytes :: "nat \<Rightarrow> byte list" where
  "nat_Bytes k = (if k = 0 then [] else nat_Bytes (k div 256) @ [word_of_nat (k mod 256)])"
  by pat_completeness auto
termination
  by (relation "measure id") auto

definition Bytes :: "int \<Rightarrow> byte list" where
  "Bytes x = nat_Bytes (nat \<bar>x\<bar>)"

text \<open>
  Modelled from the spec: the constant \<open>murmur.Size\<close> is declared in a package that is not
  among the sources; the spec gives the digest size H as 16 bytes.
\<close>

definition murmur_Size :: nat where
  "murmur_Size = 16"

text \<open>
  One pass of the loop of \<open>getSlot\<close>, for the index \<open>i\<close>, on the pair
  \<open>(biggestSpace, biggestSpaceIndex)\<close>. In the branch \<open>i + 1 < len\<close> the source reads
  \<open>self.Nodes[i].Pos\<close> for \<open>next\<close>, the same entry as for \<open>this\<close>.
\<close>

definition getSlot_step :: "Remote list \<Rightarrow> int \<times> nat \<Rightarrow> nat \<Rightarrow> int \<times> nat" where
  "getSlot_step Nodes acc i =
     (let this = SetBytes (Pos (Nodes ! i));
          next = (if i + 1 < length Nodes
                  then SetBytes (Pos (Nodes ! i))
                  else SetBytes (1 # replicate murmur_Size 0) + SetBytes (Pos (Nodes ! 0)));
          thisSpace = next - this
      in if fst acc < thisSpace then (thisSpace, i) else acc)"

definition Ring_getSlot :: "Remote list \<Rightarrow> error + byte list" where
  "Ring_getSlot Nodes =
     (let (biggestSpace, biggestSpaceIndex) = foldl (getSlot_step Nodes) (0, 0) [0..<length Nodes]
      in if biggestSpaceIndex < length Nodes
         then Inr (Bytes (SetBytes (Pos (Nodes ! biggestSpaceIndex)) + biggestSpace div 2))
         else Inl IndexOutOfRange)"

section \<open>The properties of the ring, in the words of the specification\<close>

text \<open>
  The number of entries of a ring whose position is below, or not above, a position.
  On a sorted ring these are the two indices that \<open>Ring.indices\<close> searches for.
\<close>

definition count_below :: "Remote list \<Rightarrow> pos \<Rightarrow> nat" where
  "count_below ns p = length (filter (\<lambda>x. Pos x < p) ns)"

definition count_upto :: "Remote list \<Rightarrow> pos \<Rightarrow> nat" where
  "count_upto ns p = length (filter (\<lambda>x. Pos x \<le> p) ns)"

text \<open>
  What the specification asks of the three results of \<open>indices\<close>: \<open>before\<close> is the last
  index whose position is strictly less than \<open>pos\<close>, or the highest index when there is
  none; \<open>at\<close> is an index whose position equals \<open>pos\<close>, or \<open>- 1\<close>; \<open>after\<close> is the first
  index whose position is strictly greater than \<open>pos\<close>, or \<open>0\<close>.
\<close>

definition before_spec :: "Remote list \<Rightarrow> pos \<Rightarrow> int \<Rightarrow> bool" where
  "before_spec ns p b =
     (if \<exists>k<length ns. bytes_Compare (Pos (ns ! k)) p < 0
      then 0 \<le> b \<and> b < int (length ns) \<and> bytes_Compare (Pos (ns ! nat b)) p < 0
           \<and> (\<forall>k<length ns. bytes_Compare (Pos (ns ! k)) p < 0 \<longrightarrow> int k \<le> b)
      else b = int (length ns) - 1)"

definition at_spec :: "Remote list \<Rightarrow> pos \<Rightarrow> int \<Rightarrow> bool" where
  "at_spec ns p a =
     (if \<exists>k<length ns. Pos (ns ! k) = p
      then 0 \<le> a \<and> a < int (length ns) \<and> Pos (ns ! nat a) = p
      else a = - 1)"

definition after_spec :: "Remote list \<Rightarrow> pos \<Rightarrow> int \<Rightarrow> bool" where
  "after_spec ns p a =
     (if \<exists>k<length ns. bytes_Compare p (Pos (ns ! k)) < 0
      then 0 \<le> a \<and> a < int (length ns) \<and> bytes_Compare p (Pos (ns ! nat a)) < 0
           \<and> (\<forall>k<length ns. bytes_Compare p (Pos (ns ! k)) < 0 \<longrightarrow> a \<le> int k)
      else a = 0)"

text \<open>\<open>add(r)\<close> followed by \<open>remove(r)\<close>.\<close>

definition add_then_remove :: "Remote list \<Rightarrow> Remote \<Rightarrow> error + Remote list" where
  "add_then_remove Nodes remote =
     (case Ring_add Nodes remote of Inl e \<Rightarrow> Inl e | Inr Nodes' \<Rightarrow> Ring_remove Nodes' remote)"

text \<open>
  Two circular arcs between positions. \<open>in_arc\<close> is the arc of the specification, from the
  predecessor (exclusive) to the successor (inclusive), which wraps when the predecessor is
  not below the successor; \<open>clean_spec\<close> keeps the entries in it, as the specification
  describes \<open>clean\<close>. \<open>strictly_between\<close> is the same arc without its end.
\<close>

definition in_arc :: "pos \<Rightarrow> pos \<Rightarrow> pos \<Rightarrow> bool" where
  "in_arc predecessor successor p =
     (if bytes_Compare predecessor successor < 0
      then bytes_Compare predecessor p < 0 \<and> bytes_Compare p successor < 1
      else bytes_Compare predecessor p < 0 \<or> bytes_Compare p successor < 1)"

definition clean_spec :: "Remote list \<Rightarrow> pos \<Rightarrow> pos \<Rightarrow> Remote list" where
  "clean_spec Nodes predecessor successor = filter (\<lambda>r. in_arc predecessor successor (Pos r)) Nodes"

definition strictly_between :: "pos \<Rightarrow> pos \<Rightarrow> pos \<Rightarrow> bool" where
  "strictly_between predecessor successor p =
     (if bytes_Compare predecessor successor < 0
      then bytes_Compare predecessor p < 0 \<and> bytes_Compare p successor < 0
      else bytes_Compare predecessor p < 0 \<or> bytes_Compare p successor < 0)"

text \<open>
  The slot as the specification words it, for comparison with \<open>Ring_getSlot\<close>: the arc of
  the entry \<open>i\<close> ends at the entry \<open>i + 1\<close>, and only the arc of the last entry wraps.
\<close>

definition getSlot_spec_step :: "Remote list \<Rightarrow> int \<times> nat \<Rightarrow> nat \<Rightarrow> int \<times> nat" where
  "getSlot_spec_step Nodes acc i =
     (let this = SetBytes (Pos (Nodes ! i));
          next = (if i + 1 < length Nodes
                  then SetBytes (Pos (Nodes ! (i + 1)))
                  else SetBytes (1 # replicate murmur_Size 0) + SetBytes (Pos (Nodes ! 0)));
          thisSpace = next - this
      in if fst acc < thisSpace then (thisSpace, i) else acc)"

definition getSlot_spec :: "Remote list \<Rightarrow> error + byte list" where
  "getSlot_spec Nodes =
     (let (biggestSpace, biggestSpaceIndex) = foldl (getSlot_spec_step Nodes) (0, 0) [0..<length Nodes]
      in if biggestSpaceIndex < length Nodes
         then Inr (Bytes (SetBytes (Pos (Nodes ! biggestSpaceIndex)) + biggestSpace div 2))
         else Inl IndexOutOfRange)"

section \<open>The DHash node (dhash/node.go)\<close>

text \<open>
  The node works on three collaborators whose code is not part of the sources: the routing
  node \<open>self.node\<close> (package discord), the tree \<open>self.tree\<close> (package radix) and the remote
  peers behind the RPC layer. Their state is represented by the sequence of state-changing
  calls the node has made to them so far, oldest first; every query on them is a parameter
  (a field of \<open>env\<close>) that answers from that sequence. Listeners are identified by
  numbers, and invoking one is recorded in the same sequence.
\<close>

datatype endpoint = LocalTree | RemoteTree Remote

text \<open>
  A \<open>radix.Sync\<close> as built by \<open>NewSync(source, destination).From(..).To(..)\<close>, with the
  flag that \<open>Destroy()\<close> sets.
\<close>

record Sync =
  source :: endpoint
  destination :: endpoint
  fromKey :: pos
  toKey :: pos
  destroy :: bool

datatype call =
    SetPosition pos
  | RemoveNode Remote
  | Run Sync
  | SyncListenerCall nat int int
  | CleanListenerCall nat int int
  | MigrateListenerCall nat pos pos

text \<open>
  The queries; \<open>GetRemote\<close> is \<open>self.node.Remote()\<close>. \<open>GetAddr\<close> is the fixed address of the node, and \<open>Redundancy\<close> the fixed
  replication factor (the specification: \<open>Redundancy()\<close> returns R, fixed configuration),
  so that the loops bounded by it end. \<open>CallOwned\<close> is the
  RPC \<open>DHash.Owned\<close> on a peer: the reply, or \<open>None\<close> when the call returns an error.
  \<open>PutCount\<close> and \<open>DelCount\<close> are the counters of the sync whose \<open>Run\<close> is the last call
  of the sequence. In \<open>RealSizeBetween\<close> the key \<open>nil\<close> is \<open>None\<close>. \<open>NextMarkerIndex\<close> and
  \<open>NextMarker\<close> return a key and the flag \<open>existed\<close>; of \<open>self.tree.Get\<close> only the flag
  \<open>existed\<close> is used.
\<close>

record env =
  Redundancy :: int
  GetAddr :: string
  GetPosition :: "call list \<Rightarrow> pos"
  GetPredecessor :: "call list \<Rightarrow> Remote"
  GetSuccessor :: "call list \<Rightarrow> Remote"
  GetRemote :: "call list \<Rightarrow> Remote"
  GetSuccessorFor :: "call list \<Rightarrow> pos \<Rightarrow> Remote"
  GetSuccessorForRemote :: "call list \<Rightarrow> Remote \<Rightarrow> Remote"
  CallOwned :: "call list \<Rightarrow> Remote \<Rightarrow> int option"
  RealSize :: "call list \<Rightarrow> int"
  RealSizeBetween :: "call list \<Rightarrow> pos option \<Rightarrow> pos option \<Rightarrow> bool \<Rightarrow> bool \<Rightarrow> int"
  NextMarkerIndex :: "call list \<Rightarrow> int \<Rightarrow> pos \<times> bool"
  NextMarker :: "call list \<Rightarrow> pos \<Rightarrow> pos \<times> bool"
  TreeGet :: "call list \<Rightarrow> pos \<Rightarrow> bool"
  PutCount :: "call list \<Rightarrow> int"
  DelCount :: "call list \<Rightarrow> int"

text \<open>
  The struct \<open>Node\<close>. Go's \<open>int\<close>, \<open>int32\<close> and \<open>int64\<close> values are integers here: they
  are key counts, three state codes, and nanosecond timestamps, none near the width of its
  type. The locks and the atomicity of loads and stores are not represented.
\<close>

record Node =
  state :: int
  lastSync :: int
  lastMigrate :: int
  lastReroute :: int
  syncListeners :: "nat list"
  cleanListeners :: "nat list"
  migrateListeners :: "nat list"
  calls :: "call list"

definition syncInterval :: int where
  "syncInterval = 1000000000"

definition migrateHysteresis :: real where
  "migrateHysteresis = 1.5"

definition migrateWaitFactor :: int where
  "migrateWaitFactor = 2"

definition created :: int where "created = 0"
definition started :: int where "started = 1"
definition stopped :: int where "stopped = 2"

definition hasState :: "Node \<Rightarrow> int \<Rightarrow> bool" where
  "hasState self s = (state self = s)"

subsection \<open>Node.sync and the loop of syncPeriodically\<close>

text \<open>One pass of the loop of \<open>sync\<close> on \<open>(fetched, distributed, nextSuccessor)\<close> and the calls.\<close>

definition sync_step ::
  "env \<Rightarrow> int \<times> int \<times> Remote \<times> call list \<Rightarrow> int \<times> int \<times> Remote \<times> call list" where
  "sync_step E s =
     (case s of (fetched, distributed, nextSuccessor, h) \<Rightarrow>
        (let myPos = GetPosition E h;
             h = h @ [Run \<lparr>source = LocalTree, destination = RemoteTree nextSuccessor,
                           fromKey = Pos (GetPredecessor E h), toKey = myPos, destroy = False\<rparr>];
             distributed = distributed + PutCount E h;
             h = h @ [Run \<lparr>source = RemoteTree nextSuccessor, destination = LocalTree,
                           fromKey = Pos (GetPredecessor E h), toKey = myPos, destroy = False\<rparr>];
             fetched = fetched + PutCount E h;
             nextSuccessor = GetSuccessorForRemote E h nextSuccessor
         in (fetched, distributed, nextSuccessor, h)))"

function sync_loop ::
  "env \<Rightarrow> int \<Rightarrow> int \<times> int \<times> Remote \<times> call list \<Rightarrow> int \<times> int \<times> Remote \<times> call list" where
  "sync_loop E i s =
     (if i < Redundancy E - 1 then sync_loop E (i + 1) (sync_step E s) else s)"
  by pat_completeness auto
termination
  by (relation "measure (\<lambda>(E, i, s). nat (Redundancy E - 1 - i))") auto

definition Node_sync :: "env \<Rightarrow> Node \<Rightarrow> Node" where
  "Node_sync E self =
     (case sync_loop E 0 (0, 0, GetSuccessor E (calls self), calls self) of
        (fetched, distributed, nextSuccessor, h) \<Rightarrow>
          (if fetched \<noteq> 0 \<or> distributed \<noteq> 0
           then self\<lparr>calls := h @ map (\<lambda>l. SyncListenerCall l fetched distributed) (syncListeners self)\<rparr>
           else self\<lparr>calls := h\<rparr>))"

text \<open>
  One iteration of \<open>syncPeriodically\<close>: \<open>None\<close> when the loop condition fails and the loop
  ends, otherwise the node after the loop body (the sleep changes nothing).
\<close>

definition syncPeriodically_iteration :: "env \<Rightarrow> Node \<Rightarrow> Node option" where
  "syncPeriodically_iteration E self =
     (if hasState self started then Some (Node_sync E self) else None)"

subsection \<open>Node.changePosition\<close>

function pad :: "pos \<Rightarrow> pos" where
  "pad newPos = (if length newPos < murmur_Size then pad (newPos @ [0]) else newPos)"
  by pat_completeness auto
termination
  by (relation "measure (\<lambda>newPos. murmur_Size - length newPos)") auto

text \<open>\<open>now\<close> is the reading \<open>time.Now().UnixNano()\<close> taken inside the method.\<close>

definition Node_changePosition :: "env \<Rightarrow> int \<Rightarrow> pos \<Rightarrow> Node \<Rightarrow> Node" where
  "Node_changePosition E now newPos self =
     (let newPos = pad newPos;
          oldPos = GetPosition E (calls self)
      in if bytes_Compare newPos oldPos \<noteq> 0
         then self\<lparr>calls := calls self @ [SetPosition newPos]
                         @ map (\<lambda>l. MigrateListenerCall l oldPos newPos) (migrateListeners self),
                     lastMigrate := now\<rparr>
         else self)"

subsection \<open>Node.Owned\<close>

text \<open>
  Modelled from the spec: the method \<open>Less\<close> of \<open>common.Remote\<close> is not among the
  sources. The spec orders Remotes by position, ties broken by address; that is the order
  \<open>less\<close> of \<open>shard.Remote\<close> computes.
\<close>

definition Less :: "Remote \<Rightarrow> Remote \<Rightarrow> bool" where
  "Less self other = Remote_less self other"

definition Node_Owned :: "env \<Rightarrow> call list \<Rightarrow> int" where
  "Node_Owned E h =
     (let pred = GetPredecessor E h;
          me = GetRemote E h;
          cmp = bytes_Compare (Pos pred) (Pos me)
      in if cmp < 0 then RealSizeBetween E h (Some (Pos pred)) (Some (Pos me)) True False
         else if cmp > 0
         then RealSizeBetween E h (Some (Pos pred)) None True False
              + RealSizeBetween E h None (Some (Pos me)) True False
         else if Less pred me then 0
         else RealSize E h)"

subsection \<open>Node.migrate\<close>

text \<open>
  Modelled from the spec: \<open>common.Max64\<close> and \<open>common.BetweenIE\<close> are not among the
  sources. The spec takes the maximum of the three timestamps, and accepts the wanted
  position only if it lies strictly inside (pred.Pos, self.Pos) circularly, an arc that
  wraps when its first end is not below its second.
\<close>

definition Max64 :: "int \<Rightarrow> int \<Rightarrow> int \<Rightarrow> int" where
  "Max64 a b c = max a (max b c)"

definition BetweenIE :: "pos \<Rightarrow> pos \<Rightarrow> pos \<Rightarrow> bool" where
  "BetweenIE needle lower upper =
     (if bytes_Compare lower upper < 0
      then bytes_Compare lower needle < 0 \<and> bytes_Compare needle upper < 0
      else bytes_Compare lower needle < 0 \<or> bytes_Compare needle upper < 0)"

text \<open>
  The computation of \<open>(wantedPos, existed)\<close> in \<open>migrate\<close>. Go's \<open>/\<close> on integers
  truncates towards zero (\<open>sdiv\<close>).
\<close>

definition migrate_target :: "env \<Rightarrow> call list \<Rightarrow> Remote \<Rightarrow> int \<Rightarrow> int \<Rightarrow> pos \<times> bool" where
  "migrate_target E h succ mySize succSize =
     (let wantedDelta = (mySize - succSize) sdiv 2;
          pred = GetPredecessor E h
      in if bytes_Compare (Pos pred) (GetPosition E h) < 1
         then NextMarkerIndex E h
                (RealSizeBetween E h None (Some (GetPosition E h)) True False - wantedDelta)
         else (let ownedAfterNil = RealSizeBetween E h None (Some (Pos succ)) True False
               in if ownedAfterNil > wantedDelta
                  then NextMarkerIndex E h (ownedAfterNil - wantedDelta)
                  else NextMarkerIndex E h (RealSize E h + ownedAfterNil - wantedDelta)))"

text \<open>
  \<open>now\<close> is the clock reading at the start of \<open>migrate\<close>, \<open>now'\<close> the later one inside
  \<open>changePosition\<close>. The comparison of \<open>float64(mySize)\<close> with
  \<open>float64(succSize) * migrateHysteresis\<close> is taken over the reals: the conversions and
  the product are exact for key counts below \<open>2 ^ 52\<close>.
\<close>

definition Node_migrate :: "env \<Rightarrow> int \<Rightarrow> int \<Rightarrow> Node \<Rightarrow> Node" where
  "Node_migrate E now now' self =
     (let h = calls self;
          lastAllowedChange = now + (- 1) * migrateWaitFactor * syncInterval
      in if lastAllowedChange > Max64 (lastSync self) (lastReroute self) (lastMigrate self)
         then (let succ = GetSuccessor E h
               in case CallOwned E h succ of
                    None \<Rightarrow> self\<lparr>calls := h @ [RemoveNode succ]\<rparr>
                  | Some succSize \<Rightarrow>
                      (let mySize = Node_Owned E h
                       in if mySize > 10 \<and> real_of_int mySize > real_of_int succSize * migrateHysteresis
                          then (case migrate_target E h succ mySize succSize of
                                  (wantedPos, existed) \<Rightarrow>
                                    if \<not> existed then self
                                    else if BetweenIE wantedPos (Pos (GetPredecessor E h)) (GetPosition E h)
                                    then Node_changePosition E now' wantedPos self
                                    else self)
                          else self))
         else self)"

subsection \<open>Node.circularNext, Node.owners and Node.clean\<close>

definition Node_circularNext :: "env \<Rightarrow> call list \<Rightarrow> pos \<Rightarrow> pos \<times> bool" where
  "Node_circularNext E h key =
     (if snd (NextMarker E h key) then NextMarker E h key
      else (let nextKey = replicate murmur_Size 0
            in if TreeGet E h nextKey then (nextKey, True)
               else NextMarker E h nextKey))"

function owners_loop :: "env \<Rightarrow> call list \<Rightarrow> nat \<Rightarrow> Remote list \<times> bool \<Rightarrow> Remote list \<times> bool" where
  "owners_loop E h i s =
     (if int i < Redundancy E
      then (case s of (owners, isOwner) \<Rightarrow>
              (let owners = owners @ [GetSuccessorForRemote E h (owners ! (i - 1))];
                   isOwner = (if Addr (owners ! i) = GetAddr E then True else isOwner)
               in owners_loop E h (i + 1) (owners, isOwner)))
      else s)"
  by pat_completeness auto
termination
  by (relation "measure (\<lambda>(E, h, i, s). nat (Redundancy E) - i)") auto

definition Node_owners :: "env \<Rightarrow> call list \<Rightarrow> pos \<Rightarrow> Remote list \<times> bool" where
  "Node_owners E h key =
     (let owners = [GetSuccessorFor E h key];
          isOwner = (if Addr (owners ! 0) = GetAddr E then True else False)
      in owners_loop E h 1 (owners, isOwner))"

text \<open>
  The loop of \<open>clean\<close> over \<open>owners\<close>, from \<open>index\<close> on, on \<open>(deleted, put)\<close> and the calls.
\<close>

fun clean_loop ::
  "env \<Rightarrow> pos \<Rightarrow> Remote list \<Rightarrow> nat \<Rightarrow> Remote list \<Rightarrow> int \<times> int \<times> call list
   \<Rightarrow> int \<times> int \<times> call list" where
  "clean_loop E nextKey owners index [] s = s"
| "clean_loop E nextKey owners index (owner # rest) (deleted, put, h) =
     (let sync = \<lparr>source = LocalTree, destination = RemoteTree owner,
                  fromKey = nextKey, toKey = Pos (owners ! 0), destroy = False\<rparr>;
          sync = (if int index = int (length owners) - 2 then sync\<lparr>destroy := True\<rparr> else sync);
          h = h @ [Run sync];
          deleted = deleted + DelCount E h;
          put = put + PutCount E h
      in clean_loop E nextKey owners (index + 1) rest (deleted, put, h))"

definition Node_clean :: "env \<Rightarrow> Node \<Rightarrow> Node" where
  "Node_clean E self =
     (let h = calls self
      in case Node_circularNext E h (GetPosition E h) of
           (nextKey, existed) \<Rightarrow>
             if existed
             then (case Node_owners E h nextKey of
                     (owners, isOwner) \<Rightarrow>
                       (case (if \<not> isOwner then clean_loop E nextKey owners 0 owners (0, 0, h)
                              else (0, 0, h)) of
                          (deleted, put, h) \<Rightarrow>
                            if deleted \<noteq> 0 \<or> put \<noteq> 0
                            then self\<lparr>calls := h @ map (\<lambda>l. CleanListenerCall l deleted put)
                                                      (cleanListeners self)\<rparr>
                            else self\<lparr>calls := h\<rparr>))
             else self)"

section \<open>The properties of the node, in the words of the specification\<close>

text \<open>The syncs that a sequence of calls runs, in order.\<close>

fun syncs_of :: "call list \<Rightarrow> Sync list" where
  "syncs_of [] = []"
| "syncs_of (Run s # cs) = s # syncs_of cs"
| "syncs_of (c # cs) = syncs_of cs"

text \<open>
  The sync that a clean tick owes the owner at \<open>index\<close>: a push of the arc from \<open>nextKey\<close>
  to the position of the primary owner, destroying on the second-to-last owner only.
\<close>

definition clean_sync :: "pos \<Rightarrow> Remote list \<Rightarrow> nat \<times> Remote \<Rightarrow> Sync" where
  "clean_sync nextKey owners io =
     \<lparr>source = LocalTree, destination = RemoteTree (snd io), fromKey = nextKey,
      toKey = Pos (owners ! 0), destroy = (fst io + 2 = length owners)\<rparr>"

text \<open>
  The gates of a migration tick: the quiescence window has elapsed, the RPC succeeded,
  \<open>mySize > 10\<close>, \<open>mySize > succSize * 1.5\<close>, a marker existed at the requested rank, and
  the wanted position lies inside the arc between the predecessor and the node.
\<close>

definition migrate_gates :: "env \<Rightarrow> int \<Rightarrow> Node \<Rightarrow> bool" where
  "migrate_gates E now self =
     (let h = calls self; succ = GetSuccessor E h
      in now - migrateWaitFactor * syncInterval > max (lastSync self) (max (lastReroute self) (lastMigrate self))
         \<and> (case CallOwned E h succ of
               None \<Rightarrow> False
             | Some succSize \<Rightarrow>
                 Node_Owned E h > 10
                 \<and> real_of_int (Node_Owned E h) > real_of_int succSize * 1.5
                 \<and> snd (migrate_target E h succ (Node_Owned E h) succSize)
                 \<and> BetweenIE (fst (migrate_target E h succ (Node_Owned E h) succSize))
                      (Pos (GetPredecessor E h)) (GetPosition E h)))"

section \<open>Concrete rings and nodes\<close>

text \<open>Positions of 16 bytes, named by their first byte.\<close>

definition b00 :: pos where "b00 = [0, 0, 0, 0, 0, 0, 0, 0, 0, 0, 0, 0, 0, 0, 0, 0]"
definition b40 :: pos where "b40 = [0x40, 0, 0, 0, 0, 0, 0, 0, 0, 0, 0, 0, 0, 0, 0, 0]"
definition b60 :: pos where "b60 = [0x60, 0, 0, 0, 0, 0, 0, 0, 0, 0, 0, 0, 0, 0, 0, 0]"
definition b80 :: pos where "b80 = [0x80, 0, 0, 0, 0, 0, 0, 0, 0, 0, 0, 0, 0, 0, 0, 0]"
definition bC0 :: pos where "bC0 = [0xC0, 0, 0, 0, 0, 0, 0, 0, 0, 0, 0, 0, 0, 0, 0, 0]"
definition bE0 :: pos where "bE0 = [0xE0, 0, 0, 0, 0, 0, 0, 0, 0, 0, 0, 0, 0, 0, 0, 0]"

definition ring_00_C0 :: "Remote list" where
  "ring_00_C0 = [\<lparr>Pos = b00, Addr = ''a''\<rparr>, \<lparr>Pos = bC0, Addr = ''b''\<rparr>]"

definition ring_abc :: "Remote list" where
  "ring_abc = [\<lparr>Pos = [0x10], Addr = ''a''\<rparr>, \<lparr>Pos = [0x20], Addr = ''b''\<rparr>,
               \<lparr>Pos = [0x30], Addr = ''c''\<rparr>]"

definition ring_dup :: "Remote list" where
  "ring_dup = [\<lparr>Pos = [0x10], Addr = ''a''\<rparr>, \<lparr>Pos = [0x20], Addr = ''b''\<rparr>,
               \<lparr>Pos = [0x20], Addr = ''c''\<rparr>, \<lparr>Pos = [0x30], Addr = ''d''\<rparr>]"

text \<open>
  A node \<open>a\<close> at \<open>80..\<close> in a ring with one peer \<open>b\<close> at \<open>00..\<close>, with replication factor 2
  and a tree of 30 keys, 20 of them in the owned arc; the peer reports 4 owned keys.
  The variants move the predecessor or rename the node.
\<close>

definition env0 :: env where
  "env0 = \<lparr>Redundancy = 2, GetAddr = ''a'',
           GetPosition = (\<lambda>h. b80),
           GetPredecessor = (\<lambda>h. \<lparr>Pos = b00, Addr = ''b''\<rparr>),
           GetSuccessor = (\<lambda>h. \<lparr>Pos = b00, Addr = ''b''\<rparr>),
           GetRemote = (\<lambda>h. \<lparr>Pos = b80, Addr = ''a''\<rparr>),
           GetSuccessorFor = (\<lambda>h k. \<lparr>Pos = b00, Addr = ''b''\<rparr>),
           GetSuccessorForRemote = (\<lambda>h r. if Addr r = ''a'' then \<lparr>Pos = b00, Addr = ''b''\<rparr>
                                            else \<lparr>Pos = b80, Addr = ''a''\<rparr>),
           CallOwned = (\<lambda>h r. Some 4),
           RealSize = (\<lambda>h. 30),
           RealSizeBetween = (\<lambda>h f t fi ti. case (f, t) of
                                 (Some a, Some b) \<Rightarrow> 20
                               | (Some a, None) \<Rightarrow> 3
                               | (None, Some b) \<Rightarrow> 5
                               | (None, None) \<Rightarrow> 30),
           NextMarkerIndex = (\<lambda>h i. (b40, True)),
           NextMarker = (\<lambda>h k. (bC0, True)),
           TreeGet = (\<lambda>h k. False),
           PutCount = (\<lambda>h. 1),
           DelCount = (\<lambda>h. 1)\<rparr>"

definition env_wrapped :: env where
  "env_wrapped = env0\<lparr>GetPredecessor := (\<lambda>h. \<lparr>Pos = bC0, Addr = ''b''\<rparr>)\<rparr>"

definition env_same :: env where
  "env_same = env0\<lparr>GetPredecessor := (\<lambda>h. \<lparr>Pos = b80, Addr = ''b''\<rparr>)\<rparr>"

definition env_below :: env where
  "env_below = env0\<lparr>GetPredecessor := (\<lambda>h. \<lparr>Pos = b80, Addr = ''A''\<rparr>)\<rparr>"

definition env_other :: env where
  "env_other = env0\<lparr>GetAddr := ''c''\<rparr>"

definition node0 :: Node where
  "node0 = \<lparr>state = started, lastSync = 0, lastMigrate = 0, lastReroute = 0,
            syncListeners = [7], cleanListeners = [8], migrateListeners = [9], calls = []\<rparr>"

text \<open>
  The equations of the loops are unfolded by hand, one pass at a time.
\<close>

declare Search_loop.simps [simp del] remove_loop.simps [simp del] add_loop.simps [simp del]
declare nat_Bytes.simps [simp del] sync_loop.simps [simp del] pad.simps [simp del]
declare owners_loop.simps [simp del]

section \<open>The Remote order is a strict total order\<close>

text \<open>
  \<open>bytes.Compare\<close> decides the lexicographic order of byte lists, so \<open>Remote.less\<close> is the
  lexicographic order on (position, address).
\<close>

lemma bytes_Compare_cases:
  "bytes_Compare a b = (if a < b then - 1 else if a = b then 0 else 1)"
  by (induction a b rule: bytes_Compare.induct) auto

lemma bytes_Compare_lt0: "bytes_Compare a b < 0 \<longleftrightarrow> a < b"
  by (simp add: bytes_Compare_cases)

lemma bytes_Compare_eq0: "bytes_Compare a b = 0 \<longleftrightarrow> a = b"
  by (simp add: bytes_Compare_cases)

lemma bytes_Compare_lt1: "bytes_Compare a b < 1 \<longleftrightarrow> a \<le> b"
  by (auto simp add: bytes_Compare_cases)

lemma unat_word_of_char: "unat (word_of_nat (of_char c) :: byte) = of_char c"
  by (simp add: unat_of_nat)

lemma word_of_char_inj:
  assumes "(word_of_nat (of_char c) :: byte) = word_of_nat (of_char d)"
  shows "c = d"
proof -
  have "unat (word_of_nat (of_char c) :: byte) = unat (word_of_nat (of_char d) :: byte)"
    by (rule arg_cong [OF assms])
  then have "(of_char c :: nat) = of_char d"
    by (simp only: unat_word_of_char)
  then show "c = d" by (simp only: of_char_eq_iff)
qed

lemma string_bytes_inj: "string_bytes a = string_bytes b \<longleftrightarrow> a = b"
proof
  assume "string_bytes a = string_bytes b"
  then show "a = b"
    unfolding string_bytes_def
    by (induction a arbitrary: b) (auto dest: word_of_char_inj)
qed simp

lemma Remote_less_iff:
  "Remote_less a b \<longleftrightarrow>
     Pos a < Pos b \<or> (Pos a = Pos b \<and> string_bytes (Addr a) < string_bytes (Addr b))"
  by (auto simp add: Remote_less_def Let_def bytes_Compare_cases split: if_splits)

lemma Remote_less_trans: "Remote_less a b \<Longrightarrow> Remote_less b c \<Longrightarrow> Remote_less a c"
  by (auto simp add: Remote_less_iff)

lemma Remote_less_total:
  assumes "\<not> Remote_less a b" and "Addr a \<noteq> Addr b"
  shows "Remote_less b a"
proof -
  have ne: "string_bytes (Addr a) \<noteq> string_bytes (Addr b)"
    using assms(2) by (simp add: string_bytes_inj)
  from assms(1) have 1: "\<not> Pos a < Pos b"
    and 2: "Pos a = Pos b \<Longrightarrow> \<not> string_bytes (Addr a) < string_bytes (Addr b)"
    by (simp_all add: Remote_less_iff)
  show ?thesis
  proof (cases "Pos a = Pos b")
    case True
    with 2 ne have "string_bytes (Addr b) < string_bytes (Addr a)"
      using linorder_less_linear by blast
    with True show ?thesis by (simp add: Remote_less_iff)
  next
    case False
    with 1 have "Pos b < Pos a"
      using linorder_less_linear by blast
    then show ?thesis by (simp add: Remote_less_iff)
  qed
qed

lemma Remote_less_Pos_le: "Remote_less a b \<Longrightarrow> Pos a \<le> Pos b"
  by (auto simp add: Remote_less_iff)

lemma sorted_wrt_Remote_less_Pos: "sorted_wrt Remote_less ns \<Longrightarrow> sorted (map Pos ns)"
  unfolding sorted_map
  by (erule sorted_wrt_mono_rel [rotated]) (simp add: Remote_less_Pos_le)

section \<open>Binary search\<close>

text \<open>
  The search stays inside its window, and on a predicate that is false below a threshold
  and true from it on it returns the threshold. A monotone predicate has a threshold.
\<close>

lemma Search_loop_bounds: "i \<le> j \<Longrightarrow> i \<le> Search_loop f i j \<and> Search_loop f i j \<le> j"
proof (induction f i j rule: Search_loop.induct)
  case (1 f i j)
  show ?case
  proof (cases "i < j")
    case False
    then have "Search_loop f i j = i" by (subst Search_loop.simps) simp
    with False "1.prems" show ?thesis by simp
  next
    case True
    define h where "h = (i + j) div 2"
    have hb: "i \<le> h" "h < j" using True by (simp_all add: h_def)
    show ?thesis
    proof (cases "f h")
      case True
      have "i \<le> Search_loop f i h \<and> Search_loop f i h \<le> h"
        using "1.IH"(2) [OF \<open>i < j\<close> h_def] True hb by simp
      moreover have "Search_loop f i j = Search_loop f i h"
        using \<open>i < j\<close> True by (subst Search_loop.simps) (simp add: h_def Let_def)
      ultimately show ?thesis using hb by simp
    next
      case False
      have "h + 1 \<le> Search_loop f (h + 1) j \<and> Search_loop f (h + 1) j \<le> j"
        using "1.IH"(1) [OF \<open>i < j\<close> h_def] False hb by simp
      moreover have "Search_loop f i j = Search_loop f (h + 1) j"
        using \<open>i < j\<close> False by (subst Search_loop.simps) (simp add: h_def Let_def)
      ultimately show ?thesis using hb by simp
    qed
  qed
qed

lemma Search_le: "Search n f \<le> n"
  using Search_loop_bounds [of 0 n f] by (simp add: Search_def)

lemma Search_loop_threshold:
  assumes "i \<le> t" "t \<le> j" "\<forall>k<t. \<not> f k" "\<forall>k. t \<le> k \<and> k < j \<longrightarrow> f k"
  shows "Search_loop f i j = t"
  using assms
proof (induction f i j rule: Search_loop.induct)
  case (1 f i j)
  show ?case
  proof (cases "i < j")
    case False
    then have "Search_loop f i j = i" by (subst Search_loop.simps) simp
    with False "1.prems" show ?thesis by simp
  next
    case True
    define h where "h = (i + j) div 2"
    have hb: "i \<le> h" "h < j" using True by (simp_all add: h_def)
    show ?thesis
    proof (cases "f h")
      case fh: True
      then have "t \<le> h" using "1.prems"(3) by (meson not_le_imp_less)
      have "Search_loop f i h = t"
        using "1.IH"(2) [OF \<open>i < j\<close> h_def] fh "1.prems" \<open>t \<le> h\<close> hb by simp
      moreover have "Search_loop f i j = Search_loop f i h"
        using \<open>i < j\<close> fh by (subst Search_loop.simps) (simp add: h_def Let_def)
      ultimately show ?thesis by simp
    next
      case fh: False
      then have "h < t" using "1.prems"(4) hb by (meson not_le_imp_less)
      have "Search_loop f (h + 1) j = t"
        using "1.IH"(1) [OF \<open>i < j\<close> h_def] fh "1.prems" \<open>h < t\<close> hb by simp
      moreover have "Search_loop f i j = Search_loop f (h + 1) j"
        using \<open>i < j\<close> fh by (subst Search_loop.simps) (simp add: h_def Let_def)
      ultimately show ?thesis by simp
    qed
  qed
qed

lemma Search_threshold:
  assumes "t \<le> n" "\<forall>k<t. \<not> f k" "\<forall>k. t \<le> k \<and> k < n \<longrightarrow> f k"
  shows "Search n f = t"
  using Search_loop_threshold [of 0 t n f] assms by (simp add: Search_def)

lemma monotone_threshold:
  assumes "\<forall>a b. a \<le> b \<and> b < (n::nat) \<and> f a \<longrightarrow> f b"
  shows "\<exists>t\<le>n. (\<forall>k<t. \<not> f k) \<and> (\<forall>k. t \<le> k \<and> k < n \<longrightarrow> f k)"
proof (cases "\<exists>k<n. f k")
  case False
  then show ?thesis by (intro exI [of _ n]) auto
next
  case True
  define t where "t = (LEAST k. k < n \<and> f k)"
  from True obtain k0 where k0: "k0 < n \<and> f k0" by blast
  have t1: "t < n \<and> f t" unfolding t_def by (rule LeastI [of _ k0]) (rule k0)
  have t2: "\<And>k. k < t \<Longrightarrow> \<not> (k < n \<and> f k)" unfolding t_def by (rule not_less_Least)
  have "\<forall>k<t. \<not> f k" using t1 t2 by (meson less_trans)
  moreover have "\<forall>k. t \<le> k \<and> k < n \<longrightarrow> f k" using assms t1 by blast
  ultimately show ?thesis using t1 by (intro exI [of _ t]) simp
qed

lemma Search_monotone:
  assumes "\<forall>a b. a \<le> b \<and> b < n \<and> f a \<longrightarrow> f b"
  shows "Search n f \<le> n \<and> (\<forall>k<Search n f. \<not> f k) \<and> (\<forall>k. Search n f \<le> k \<and> k < n \<longrightarrow> f k)"
proof -
  from monotone_threshold [OF assms] obtain t where
    t: "t \<le> n" "\<forall>k<t. \<not> f k" "\<forall>k. t \<le> k \<and> k < n \<longrightarrow> f k" by blast
  then have "Search n f = t" by (rule Search_threshold)
  with t show ?thesis by simp
qed

section \<open>Lists cut at indices\<close>

lemma in_set_drop_nth:
  assumes "y \<in> set (drop i ns)"
  shows "\<exists>k. i \<le> k \<and> k < length ns \<and> y = ns ! k"
proof -
  from assms have "\<exists>j<length (drop i ns). drop i ns ! j = y"
    unfolding in_set_conv_nth .
  then obtain j where j: "j < length (drop i ns)" "drop i ns ! j = y" by blast
  then have "i + j < length ns" and "y = ns ! (i + j)" by simp_all
  then show ?thesis by (intro exI [of _ "i + j"]) simp
qed

lemma in_set_take_nth:
  assumes "y \<in> set (take i ns)"
  shows "\<exists>k. k < i \<and> k < length ns \<and> y = ns ! k"
proof -
  from assms have "\<exists>j<length (take i ns). take i ns ! j = y"
    unfolding in_set_conv_nth .
  then obtain j where j: "j < length (take i ns)" "take i ns ! j = y" by blast
  from j(1) have ji: "j < i" "j < length ns" by simp_all
  with j(2) have "y = ns ! j" by simp
  with ji show ?thesis by blast
qed

lemma in_set_mid_nth:
  assumes "y \<in> set (take (b - a) (drop a ns))"
  shows "\<exists>k. a \<le> k \<and> k < b \<and> k < length ns \<and> y = ns ! k"
proof -
  from in_set_take_nth [OF assms] obtain j where
    j: "j < b - a" "j < length (drop a ns)" "y = drop a ns ! j" by blast
  then have "a \<le> a + j" "a + j < b" "a + j < length ns" "y = ns ! (a + j)" by simp_all
  then show ?thesis by blast
qed

lemma three_parts:
  assumes "a \<le> b" "b \<le> length ns"
  shows "ns = take a ns @ take (b - a) (drop a ns) @ drop b ns"
proof -
  have "take (b - a) (drop a ns) @ drop b ns = drop a ns"
  proof -
    have "drop b ns = drop (b - a) (drop a ns)" using assms by simp
    then show ?thesis by (simp only: append_take_drop_id)
  qed
  then show ?thesis by simp
qed

lemma filter_index_outside:
  assumes ab: "a \<le> b" "b \<le> length ns"
    and P: "\<forall>k<length ns. P (ns ! k) \<longleftrightarrow> k < a \<or> b \<le> k"
  shows "filter P ns = take a ns @ drop b ns"
proof -
  have 1: "filter P (take a ns) = take a ns"
    unfolding filter_id_conv
  proof
    fix y assume "y \<in> set (take a ns)"
    from in_set_take_nth [OF this] obtain k where "k < a" "k < length ns" "y = ns ! k" by blast
    with P show "P y" by auto
  qed
  have 2: "filter P (take (b - a) (drop a ns)) = []"
    unfolding filter_empty_conv
  proof
    fix y assume "y \<in> set (take (b - a) (drop a ns))"
    from in_set_mid_nth [OF this] obtain k where "a \<le> k" "k < b" "k < length ns" "y = ns ! k"
      by blast
    with P show "\<not> P y" by auto
  qed
  have 3: "filter P (drop b ns) = drop b ns"
    unfolding filter_id_conv
  proof
    fix y assume "y \<in> set (drop b ns)"
    from in_set_drop_nth [OF this] obtain k where "b \<le> k" "k < length ns" "y = ns ! k" by blast
    with P show "P y" by auto
  qed
  have "filter P ns = filter P (take a ns @ take (b - a) (drop a ns) @ drop b ns)"
    by (rule arg_cong [OF three_parts [OF ab]])
  also have "\<dots> = take a ns @ drop b ns"
    unfolding filter_append 1 2 3 by simp
  finally show ?thesis .
qed

lemma filter_index_inside:
  assumes ab: "a \<le> b" "b \<le> length ns"
    and P: "\<forall>k<length ns. P (ns ! k) \<longleftrightarrow> a \<le> k \<and> k < b"
  shows "filter P ns = take (b - a) (drop a ns)"
proof -
  have 1: "filter P (take a ns) = []"
    unfolding filter_empty_conv
  proof
    fix y assume "y \<in> set (take a ns)"
    from in_set_take_nth [OF this] obtain k where "k < a" "k < length ns" "y = ns ! k" by blast
    with P show "\<not> P y" by auto
  qed
  have 2: "filter P (take (b - a) (drop a ns)) = take (b - a) (drop a ns)"
    unfolding filter_id_conv
  proof
    fix y assume "y \<in> set (take (b - a) (drop a ns))"
    from in_set_mid_nth [OF this] obtain k where "a \<le> k" "k < b" "k < length ns" "y = ns ! k"
      by blast
    with P show "P y" by auto
  qed
  have 3: "filter P (drop b ns) = []"
    unfolding filter_empty_conv
  proof
    fix y assume "y \<in> set (drop b ns)"
    from in_set_drop_nth [OF this] obtain k where "b \<le> k" "k < length ns" "y = ns ! k" by blast
    with P show "\<not> P y" by auto
  qed
  have "filter P ns = filter P (take a ns @ take (b - a) (drop a ns) @ drop b ns)"
    by (rule arg_cong [OF three_parts [OF ab]])
  also have "\<dots> = take (b - a) (drop a ns)"
    unfolding filter_append 1 2 3 by simp
  finally show ?thesis .
qed

lemma sorted_filter_prefix:
  fixes g :: "'a \<Rightarrow> 'k::linorder"
  assumes "sorted (map g ns)" and "\<forall>a b. a \<le> b \<and> P b \<longrightarrow> P a"
  shows "take (length (filter (\<lambda>x. P (g x)) ns)) ns = filter (\<lambda>x. P (g x)) ns
       \<and> drop (length (filter (\<lambda>x. P (g x)) ns)) ns = filter (\<lambda>x. \<not> P (g x)) ns"
  using assms(1)
proof (induction ns)
  case Nil
  show ?case by simp
next
  case (Cons x xs)
  then have IH: "take (length (filter (\<lambda>x. P (g x)) xs)) xs = filter (\<lambda>x. P (g x)) xs
       \<and> drop (length (filter (\<lambda>x. P (g x)) xs)) xs = filter (\<lambda>x. \<not> P (g x)) xs"
    by simp
  show ?case
  proof (cases "P (g x)")
    case True
    with IH show ?thesis by simp
  next
    case False
    have "\<forall>y\<in>set xs. \<not> P (g y)"
    proof
      fix y assume "y \<in> set xs"
      with Cons.prems have "g x \<le> g y" by auto
      with False assms(2) show "\<not> P (g y)" by blast
    qed
    then have "filter (\<lambda>x. P (g x)) xs = []" and "filter (\<lambda>x. \<not> P (g x)) xs = xs"
      by (simp_all add: filter_empty_conv filter_id_conv)
    with False show ?thesis by simp
  qed
qed

lemma sorted_prefix_nth:
  fixes g :: "'a \<Rightarrow> 'k::linorder"
  assumes "sorted (map g ns)" and "\<forall>a b. a \<le> b \<and> P b \<longrightarrow> P a"
  defines "c \<equiv> length (filter (\<lambda>x. P (g x)) ns)"
  shows "c \<le> length ns" and "\<forall>k<c. P (g (ns ! k))" and "\<forall>k. c \<le> k \<and> k < length ns \<longrightarrow> \<not> P (g (ns ! k))"
proof -
  note pre = sorted_filter_prefix [OF assms(1,2), folded c_def]
  show c: "c \<le> length ns" by (simp add: c_def)
  show "\<forall>k<c. P (g (ns ! k))"
  proof (intro allI impI)
    fix k assume "k < c"
    then have "ns ! k = take c ns ! k" by simp
    moreover have "take c ns ! k \<in> set (take c ns)"
      using \<open>k < c\<close> c by (intro nth_mem) simp
    ultimately have "ns ! k \<in> set (filter (\<lambda>x. P (g x)) ns)" using pre by simp
    then show "P (g (ns ! k))" by simp
  qed
  show "\<forall>k. c \<le> k \<and> k < length ns \<longrightarrow> \<not> P (g (ns ! k))"
  proof (intro allI impI)
    fix k assume k: "c \<le> k \<and> k < length ns"
    then have "ns ! k = drop c ns ! (k - c)" by simp
    moreover have "drop c ns ! (k - c) \<in> set (drop c ns)"
      using k by (intro nth_mem) auto
    ultimately have "ns ! k \<in> set (filter (\<lambda>x. \<not> P (g x)) ns)" using pre by simp
    then show "\<not> P (g (ns ! k))" by simp
  qed
qed

section \<open>Ring.indices on a sorted ring\<close>

text \<open>
  On a ring sorted by position the first search of \<open>indices\<close> returns \<open>count_below\<close>, the
  second \<open>count_upto\<close>, which gives the three results in closed form.
\<close>

lemma count_below_le_upto: "count_below ns p \<le> count_upto ns p"
  unfolding count_below_def count_upto_def
  by (induction ns) auto

lemma count_upto_le: "count_upto ns p \<le> length ns"
  by (simp add: count_upto_def)

lemma below_nth:
  assumes "sorted (map Pos ns)"
  shows "\<forall>k<count_below ns p. Pos (ns ! k) < p"
    and "\<forall>k. count_below ns p \<le> k \<and> k < length ns \<longrightarrow> p \<le> Pos (ns ! k)"
proof -
  have dc: "\<forall>a b. a \<le> b \<and> b < p \<longrightarrow> a < p" by auto
  show "\<forall>k<count_below ns p. Pos (ns ! k) < p"
    using sorted_prefix_nth(2) [OF assms dc] by (simp add: count_below_def)
  show "\<forall>k. count_below ns p \<le> k \<and> k < length ns \<longrightarrow> p \<le> Pos (ns ! k)"
    using sorted_prefix_nth(3) [OF assms dc] by (simp add: count_below_def not_less)
qed

lemma upto_nth:
  assumes "sorted (map Pos ns)"
  shows "\<forall>k<count_upto ns p. Pos (ns ! k) \<le> p"
    and "\<forall>k. count_upto ns p \<le> k \<and> k < length ns \<longrightarrow> p < Pos (ns ! k)"
proof -
  have dc: "\<forall>a b. a \<le> b \<and> b \<le> p \<longrightarrow> a \<le> p" by auto
  show "\<forall>k<count_upto ns p. Pos (ns ! k) \<le> p"
    using sorted_prefix_nth(2) [OF assms dc] by (simp add: count_upto_def)
  show "\<forall>k. count_upto ns p \<le> k \<and> k < length ns \<longrightarrow> p < Pos (ns ! k)"
    using sorted_prefix_nth(3) [OF assms dc] by (simp add: count_upto_def not_le)
qed

lemma below_iff:
  assumes "sorted (map Pos ns)" "k < length ns"
  shows "bytes_Compare (Pos (ns ! k)) p < 0 \<longleftrightarrow> k < count_below ns p"
  using below_nth [OF assms(1), of p] assms(2)
  by (metis bytes_Compare_lt0 not_le_imp_less not_less)

lemma above_iff:
  assumes "sorted (map Pos ns)" "k < length ns"
  shows "bytes_Compare p (Pos (ns ! k)) < 0 \<longleftrightarrow> count_upto ns p \<le> k"
  using upto_nth [OF assms(1), of p] assms(2)
  by (metis bytes_Compare_lt0 not_le_imp_less not_less)

lemma at_iff:
  assumes "sorted (map Pos ns)" "k < length ns"
  shows "Pos (ns ! k) = p \<longleftrightarrow> count_below ns p \<le> k \<and> k < count_upto ns p"
proof -
  have "Pos (ns ! k) = p \<longleftrightarrow> \<not> bytes_Compare (Pos (ns ! k)) p < 0 \<and> \<not> bytes_Compare p (Pos (ns ! k)) < 0"
    by (auto simp add: bytes_Compare_lt0)
  then show ?thesis
    unfolding below_iff [OF assms] above_iff [OF assms] by auto
qed

lemma Search_first_ge:
  assumes "sorted (map Pos ns)"
  shows "Search (length ns) (\<lambda>i. bytes_Compare p (Pos (ns ! i)) < 1) = count_below ns p"
proof (rule Search_threshold)
  show "count_below ns p \<le> length ns" by (simp add: count_below_def)
  show "\<forall>k<count_below ns p. \<not> bytes_Compare p (Pos (ns ! k)) < 1"
    using below_nth(1) [OF assms, of p] by (simp add: bytes_Compare_lt1 not_le)
  show "\<forall>k. count_below ns p \<le> k \<and> k < length ns \<longrightarrow> bytes_Compare p (Pos (ns ! k)) < 1"
    using below_nth(2) [OF assms, of p] by (simp add: bytes_Compare_lt1)
qed

lemma Search_first_gt:
  assumes "sorted (map Pos ns)"
  shows "Search (length ns - count_below ns p)
           (\<lambda>k. bytes_Compare p (Pos (ns ! (k + count_below ns p))) < 0) + count_below ns p
         = count_upto ns p"
proof -
  let ?lo = "count_below ns p" and ?hi = "count_upto ns p"
  have le: "?lo \<le> ?hi" "?hi \<le> length ns"
    by (rule count_below_le_upto, rule count_upto_le)
  have "Search (length ns - ?lo) (\<lambda>k. bytes_Compare p (Pos (ns ! (k + ?lo))) < 0) = ?hi - ?lo"
  proof (rule Search_threshold)
    show "?hi - ?lo \<le> length ns - ?lo" using le by simp
    show "\<forall>k<?hi - ?lo. \<not> bytes_Compare p (Pos (ns ! (k + ?lo))) < 0"
    proof (intro allI impI)
      fix k assume "k < ?hi - ?lo"
      then have "k + ?lo < ?hi" by simp
      then have "Pos (ns ! (k + ?lo)) \<le> p" using upto_nth(1) [OF assms, of p] by blast
      then show "\<not> bytes_Compare p (Pos (ns ! (k + ?lo))) < 0"
        by (simp add: bytes_Compare_lt0 not_less)
    qed
    show "\<forall>k. ?hi - ?lo \<le> k \<and> k < length ns - ?lo \<longrightarrow> bytes_Compare p (Pos (ns ! (k + ?lo))) < 0"
    proof (intro allI impI)
      fix k assume "?hi - ?lo \<le> k \<and> k < length ns - ?lo"
      then have "?hi \<le> k + ?lo \<and> k + ?lo < length ns" using le by auto
      then have "p < Pos (ns ! (k + ?lo))" using upto_nth(2) [OF assms, of p] by blast
      then show "bytes_Compare p (Pos (ns ! (k + ?lo))) < 0"
        by (simp add: bytes_Compare_lt0)
    qed
  qed
  with le show ?thesis by simp
qed

lemma Ring_indices_sorted:
  fixes ns :: "Remote list" and p :: pos
  assumes "sorted (map Pos ns)"
  defines "n \<equiv> length ns" and "lo \<equiv> count_below ns p" and "hi \<equiv> count_upto ns p"
  shows "Ring_indices ns p =
     (if lo = n then (int n - 1, - 1, 0)
      else (if lo = 0 then int n - 1 else int lo - 1,
            if lo < hi then int lo else - 1,
            if lo < hi then (if hi < n then int hi else 0) else int lo))"
proof (cases "lo = n")
  case True
  then show ?thesis
    unfolding Ring_indices_def Let_def Search_first_ge [OF assms(1)] n_def lo_def by simp
next
  case False
  have "lo \<le> n" unfolding lo_def n_def count_below_def by simp
  with False have lon: "lo < n" by simp
  have ge: "p \<le> Pos (ns ! lo)"
    using below_nth(2) [OF assms(1), of p] lon unfolding lo_def n_def by blast
  have eq_iff: "bytes_Compare p (Pos (ns ! lo)) = 0 \<longleftrightarrow> lo < hi"
  proof
    assume "bytes_Compare p (Pos (ns ! lo)) = 0"
    then have "\<not> p < Pos (ns ! lo)" by (simp add: bytes_Compare_eq0)
    then have "\<not> hi \<le> lo" using upto_nth(2) [OF assms(1), of p] lon
      unfolding lo_def hi_def n_def by blast
    then show "lo < hi" by simp
  next
    assume "lo < hi"
    then have "Pos (ns ! lo) \<le> p" using upto_nth(1) [OF assms(1), of p]
      unfolding lo_def hi_def by blast
    with ge show "bytes_Compare p (Pos (ns ! lo)) = 0" by (simp add: bytes_Compare_eq0)
  qed
  show ?thesis
    unfolding Ring_indices_def Let_def Search_first_ge [OF assms(1)]
      Search_first_gt [OF assms(1)]
    using False eq_iff unfolding n_def lo_def hi_def by simp
qed

lemma Ring_indices_at_eq:
  assumes s: "sorted (map Pos ns)"
  shows "fst (snd (Ring_indices ns p)) = (if count_below ns p < count_upto ns p then int (count_below ns p) else - 1)"
  unfolding Ring_indices_sorted [OF s]
  using count_below_le_upto [of ns p] count_upto_le [of ns p] by auto

lemma Ring_indices_after_eq:
  assumes s: "sorted (map Pos ns)"
  shows "snd (snd (Ring_indices ns p)) = (if count_upto ns p < length ns then int (count_upto ns p) else 0)"
  unfolding Ring_indices_sorted [OF s]
  using count_below_le_upto [of ns p] count_upto_le [of ns p] by auto

lemma Ring_indices_before:
  assumes s: "sorted (map Pos ns)" and ne: "ns \<noteq> []"
  shows "before_spec ns p (fst (Ring_indices ns p))"
proof -
  let ?n = "length ns" and ?lo = "count_below ns p"
  have n: "0 < ?n" using ne by simp
  have lo: "?lo \<le> ?n" by (simp add: count_below_def)
  have ex: "(\<exists>k<?n. bytes_Compare (Pos (ns ! k)) p < 0) \<longleftrightarrow> 0 < ?lo"
  proof
    assume "\<exists>k<?n. bytes_Compare (Pos (ns ! k)) p < 0"
    then obtain k where "k < ?n" "bytes_Compare (Pos (ns ! k)) p < 0" by blast
    then have "k < ?lo" by (simp add: below_iff [OF s])
    then show "0 < ?lo" by simp
  next
    assume "0 < ?lo"
    then have "bytes_Compare (Pos (ns ! 0)) p < 0" using n by (simp add: below_iff [OF s])
    with n show "\<exists>k<?n. bytes_Compare (Pos (ns ! k)) p < 0" by blast
  qed
  have b: "fst (Ring_indices ns p) = (if ?lo = 0 then int ?n - 1 else int ?lo - 1)"
    unfolding Ring_indices_sorted [OF s] by simp
  show ?thesis
  proof (cases "?lo = 0")
    case True
    with ex have nex: "\<not> (\<exists>k<?n. bytes_Compare (Pos (ns ! k)) p < 0)" by simp
    show ?thesis unfolding before_spec_def if_not_P [OF nex] b using True by simp
  next
    case False
    then have pos: "0 < ?lo" by simp
    have nat_b: "nat (int ?lo - 1) = ?lo - 1" by simp
    have 1: "bytes_Compare (Pos (ns ! (?lo - 1))) p < 0"
      using pos lo by (simp add: below_iff [OF s])
    have 2: "\<forall>k<?n. bytes_Compare (Pos (ns ! k)) p < 0 \<longrightarrow> int k \<le> int ?lo - 1"
      by (auto simp add: below_iff [OF s])
    from ex pos have yes: "\<exists>k<?n. bytes_Compare (Pos (ns ! k)) p < 0" by simp
    show ?thesis
      unfolding before_spec_def if_P [OF yes] b using pos lo 1 2 False by (simp add: nat_b)
  qed
qed

lemma Ring_indices_at:
  assumes s: "sorted (map Pos ns)"
  shows "at_spec ns p (fst (snd (Ring_indices ns p)))"
proof -
  let ?n = "length ns" and ?lo = "count_below ns p" and ?hi = "count_upto ns p"
  have le: "?lo \<le> ?hi" "?hi \<le> ?n" by (rule count_below_le_upto, rule count_upto_le)
  have ex: "(\<exists>k<?n. Pos (ns ! k) = p) \<longleftrightarrow> ?lo < ?hi"
  proof
    assume "\<exists>k<?n. Pos (ns ! k) = p"
    then obtain k where "k < ?n" "Pos (ns ! k) = p" by blast
    then have "?lo \<le> k \<and> k < ?hi" by (simp add: at_iff [OF s])
    then show "?lo < ?hi" by simp
  next
    assume h: "?lo < ?hi"
    then have "?lo < ?n" using le by simp
    moreover from this h have "Pos (ns ! ?lo) = p" by (simp add: at_iff [OF s])
    ultimately show "\<exists>k<?n. Pos (ns ! k) = p" by blast
  qed
  have a: "fst (snd (Ring_indices ns p)) = (if ?lo < ?hi then int ?lo else - 1)"
    unfolding Ring_indices_sorted [OF s] using le by auto
  show ?thesis
  proof (cases "?lo < ?hi")
    case True
    then have "?lo < ?n" using le by simp
    moreover from this True have "Pos (ns ! ?lo) = p" by (simp add: at_iff [OF s])
    moreover from ex True have yes: "\<exists>k<?n. Pos (ns ! k) = p" by simp
    ultimately show ?thesis unfolding at_spec_def if_P [OF yes] a using True by simp
  next
    case False
    with ex have nex: "\<not> (\<exists>k<?n. Pos (ns ! k) = p)" by simp
    show ?thesis unfolding at_spec_def if_not_P [OF nex] a using False by simp
  qed
qed

lemma Ring_indices_after:
  assumes s: "sorted (map Pos ns)"
  shows "after_spec ns p (snd (snd (Ring_indices ns p)))"
proof -
  let ?n = "length ns" and ?lo = "count_below ns p" and ?hi = "count_upto ns p"
  have le: "?lo \<le> ?hi" "?hi \<le> ?n" by (rule count_below_le_upto, rule count_upto_le)
  have ex: "(\<exists>k<?n. bytes_Compare p (Pos (ns ! k)) < 0) \<longleftrightarrow> ?hi < ?n"
  proof
    assume "\<exists>k<?n. bytes_Compare p (Pos (ns ! k)) < 0"
    then obtain k where "k < ?n" "bytes_Compare p (Pos (ns ! k)) < 0" by blast
    then have "?hi \<le> k \<and> k < ?n" by (simp add: above_iff [OF s])
    then show "?hi < ?n" by simp
  next
    assume h: "?hi < ?n"
    then have "bytes_Compare p (Pos (ns ! ?hi)) < 0" by (simp add: above_iff [OF s])
    with h show "\<exists>k<?n. bytes_Compare p (Pos (ns ! k)) < 0" by blast
  qed
  have a: "snd (snd (Ring_indices ns p)) = (if ?hi < ?n then int ?hi else 0)"
    unfolding Ring_indices_sorted [OF s] using le by auto
  show ?thesis
  proof (cases "?hi < ?n")
    case True
    then have 1: "bytes_Compare p (Pos (ns ! ?hi)) < 0" by (simp add: above_iff [OF s])
    have 2: "\<forall>k<?n. bytes_Compare p (Pos (ns ! k)) < 0 \<longrightarrow> int ?hi \<le> int k"
      by (simp add: above_iff [OF s])
    from ex True have yes: "\<exists>k<?n. bytes_Compare p (Pos (ns ! k)) < 0" by simp
    show ?thesis unfolding after_spec_def if_P [OF yes] a using True 1 2 by simp
  next
    case False
    with ex have nex: "\<not> (\<exists>k<?n. bytes_Compare p (Pos (ns ! k)) < 0)" by simp
    show ?thesis unfolding after_spec_def if_not_P [OF nex] a using False by simp
  qed
qed

text \<open>
  Claim C7. For every non-empty sorted ring and every position \<open>pos\<close>, \<open>Ring.indices\<close>
  returns as \<open>before\<close> the last index whose position is strictly less than \<open>pos\<close> (the
  highest index if there is none), as \<open>at\<close> an index whose position equals \<open>pos\<close> (\<open>- 1\<close> if
  there is none), and as \<open>after\<close> the first index whose position is strictly greater than
  \<open>pos\<close> (\<open>0\<close> if there is none); entries that share the position \<open>pos\<close> are allowed, since
  the ring is sorted by position and then address.
\<close>

theorem Ring_indices_correct:
  assumes "ns \<noteq> []" and "sorted_wrt Remote_less ns"
  shows "before_spec ns p (fst (Ring_indices ns p))
       \<and> at_spec ns p (fst (snd (Ring_indices ns p)))
       \<and> after_spec ns p (snd (snd (Ring_indices ns p)))"
  using Ring_indices_before [OF sorted_wrt_Remote_less_Pos [OF assms(2)] assms(1)]
    Ring_indices_at [OF sorted_wrt_Remote_less_Pos [OF assms(2)]]
    Ring_indices_after [OF sorted_wrt_Remote_less_Pos [OF assms(2)]]
  by simp

text \<open>
  The ring \<open>ring_dup\<close> has two entries at the position \<open>20\<close>: \<open>before\<close> is the entry at
  \<open>10\<close>, \<open>at\<close> the first of the two, \<open>after\<close> the entry at \<open>30\<close>.
\<close>

lemma ring_dup_sorted: "sorted_wrt Remote_less ring_dup"
  by (simp add: ring_dup_def Remote_less_def string_bytes_def)

theorem Ring_indices_correct_witness:
  "Ring_indices ring_dup [0x20] = (0, 1, 3)
   \<and> before_spec ring_dup [0x20] 0 \<and> at_spec ring_dup [0x20] 1 \<and> after_spec ring_dup [0x20] 3"
proof -
  have ne: "ring_dup \<noteq> []" by (simp add: ring_dup_def)
  have v: "Ring_indices ring_dup [0x20] = (0, 1, 3)" by code_simp
  from Ring_indices_correct [OF ne ring_dup_sorted, of "[0x20]"] v show ?thesis by simp
qed

section \<open>The loops of Ring.add and Ring.remove\<close>

text \<open>
  A loop that meets no entry with the address of the remote leaves the slice as it is;
  entries before the first such entry are skipped. After the deletion of the only entry
  with that address, the cells that the loop still reads hold entries from behind it, so
  on a ring with unique addresses the loop deletes exactly that entry.
\<close>

lemma length_delete_in_place:
  "index + 1 \<le> m \<Longrightarrow> m \<le> length arr \<Longrightarrow> length (delete_in_place arr m index) = length arr"
  by (simp add: delete_in_place_def)

lemma take_delete_in_place:
  "index + 1 \<le> m \<Longrightarrow> m \<le> length arr \<Longrightarrow>
   take (m - 1) (delete_in_place arr m index) = take index arr @ take (m - (index + 1)) (drop (index + 1) arr)"
  by (simp add: delete_in_place_def)

lemma set_drop_delete_in_place:
  assumes "index + 1 \<le> m" "m \<le> length arr"
  shows "set (drop (index + 1) (delete_in_place arr m index)) \<subseteq> set (drop (index + 1) arr)"
proof (cases "m = index + 1")
  case True
  then have "delete_in_place arr m index = arr" by (simp add: delete_in_place_def)
  then show ?thesis by simp
next
  case False
  define B where "B = take (m - (index + 1)) (drop (index + 1) arr)"
  define C where "C = drop (m - 1) arr"
  have lenB: "0 < length B" using False assms by (simp add: B_def)
  have "drop (index + 1) (delete_in_place arr m index) = drop 1 (B @ C)"
    using assms by (simp add: delete_in_place_def B_def C_def)
  also have "\<dots> = drop 1 B @ C" using lenB by (cases B) simp_all
  finally have eq: "drop (index + 1) (delete_in_place arr m index) = drop 1 B @ C" .
  have "set (drop 1 B) \<subseteq> set B" by (rule set_drop_subset)
  also have "set B \<subseteq> set (drop (index + 1) arr)" unfolding B_def by (rule set_take_subset)
  finally have 1: "set (drop 1 B) \<subseteq> set (drop (index + 1) arr)" .
  have 2: "set C \<subseteq> set (drop (index + 1) arr)"
    unfolding C_def using False assms by (intro set_drop_subset_set_drop) simp
  show ?thesis unfolding eq using 1 2 by simp
qed

lemma remove_loop_no_match:
  assumes "length arr = n" and "\<forall>x\<in>set (drop index arr). Addr x \<noteq> Addr remote"
  shows "remove_loop remote n arr m index = Inr (take m arr)"
  using assms
proof (induction remote n arr m index rule: remove_loop.induct)
  case (1 remote n arr m index)
  show ?case
  proof (cases "index < n")
    case False
    then show ?thesis by (subst remove_loop.simps) simp
  next
    case True
    then have d: "drop index arr = arr ! index # drop (Suc index) arr"
      using "1.prems"(1) by (simp add: Cons_nth_drop_Suc)
    with "1.prems"(2) have ne: "Addr (arr ! index) \<noteq> Addr remote"
      and rest: "\<forall>x\<in>set (drop (index + 1) arr). Addr x \<noteq> Addr remote" by simp_all
    have "remove_loop remote n arr m index = remove_loop remote n arr m (index + 1)"
      using True ne by (subst remove_loop.simps) simp
    also have "\<dots> = Inr (take m arr)"
      using "1.IH"(2) [OF True ne "1.prems"(1) rest] .
    finally show ?thesis .
  qed
qed

lemma remove_loop_skip:
  assumes "\<forall>j. index \<le> j \<and> j < k \<longrightarrow> Addr (arr ! j) \<noteq> Addr remote" and "index \<le> k" and "k \<le> n"
  shows "remove_loop remote n arr m index = remove_loop remote n arr m k"
  using assms
proof (induction "k - index" arbitrary: index)
  case 0
  then show ?case by simp
next
  case (Suc d)
  then have lt: "index < k" "index < n" by simp_all
  from Suc.prems(1) lt have ne: "Addr (arr ! index) \<noteq> Addr remote" by simp
  have "remove_loop remote n arr m index = remove_loop remote n arr m (index + 1)"
    using lt ne by (subst remove_loop.simps) simp
  also have "\<dots> = remove_loop remote n arr m k"
    using Suc.hyps(1) [of "index + 1"] Suc.hyps(2) Suc.prems lt by simp
  finally show ?case .
qed

lemma remove_loop_at:
  assumes len: "length arr = n" and k: "k < n"
    and before: "\<forall>j<k. Addr (arr ! j) \<noteq> Addr remote"
    and hit: "Addr (arr ! k) = Addr remote"
    and after: "\<forall>x\<in>set (drop (k + 1) arr). Addr x \<noteq> Addr remote"
  shows "remove_loop remote n arr n 0 = Inr (take k arr @ drop (k + 1) arr)"
proof -
  let ?arr' = "delete_in_place arr n k"
  have kn: "k + 1 \<le> n" "n \<le> length arr" using k len by simp_all
  have "remove_loop remote n arr n 0 = remove_loop remote n arr n k"
    using before k by (intro remove_loop_skip) simp_all
  also have "\<dots> = remove_loop remote n ?arr' (n - 1) (k + 1)"
    using k hit by (subst remove_loop.simps) simp
  also have "\<dots> = Inr (take (n - 1) ?arr')"
  proof (rule remove_loop_no_match)
    show "length ?arr' = n" using length_delete_in_place [OF kn] len by simp
    show "\<forall>x\<in>set (drop (k + 1) ?arr'). Addr x \<noteq> Addr remote"
      using set_drop_delete_in_place [OF kn] after by blast
  qed
  also have "take (n - 1) ?arr' = take k arr @ drop (k + 1) arr"
    using take_delete_in_place [OF kn] len by simp
  finally show ?thesis .
qed

lemma add_loop_no_match:
  assumes "length arr = n" and "\<forall>x\<in>set (drop index arr). Addr x \<noteq> Addr remote"
  shows "add_loop remote n arr m index = Inr (Fallthrough, take m arr)"
  using assms
proof (induction remote n arr m index rule: add_loop.induct)
  case (1 remote n arr m index)
  show ?case
  proof (cases "index < n")
    case False
    then show ?thesis by (subst add_loop.simps) simp
  next
    case True
    then have d: "drop index arr = arr ! index # drop (Suc index) arr"
      using "1.prems"(1) by (simp add: Cons_nth_drop_Suc)
    with "1.prems"(2) have ne: "Addr (arr ! index) \<noteq> Addr remote"
      and rest: "\<forall>x\<in>set (drop (index + 1) arr). Addr x \<noteq> Addr remote" by simp_all
    have "add_loop remote n arr m index = add_loop remote n arr m (index + 1)"
      using True ne by (subst add_loop.simps) simp
    also have "\<dots> = Inr (Fallthrough, take m arr)"
      using "1.IH"(2) [OF True ne "1.prems"(1) rest] .
    finally show ?thesis .
  qed
qed

lemma add_loop_skip:
  assumes "\<forall>j. index \<le> j \<and> j < k \<longrightarrow> Addr (arr ! j) \<noteq> Addr remote" and "index \<le> k" and "k \<le> n"
  shows "add_loop remote n arr m index = add_loop remote n arr m k"
  using assms
proof (induction "k - index" arbitrary: index)
  case 0
  then show ?case by simp
next
  case (Suc d)
  then have lt: "index < k" "index < n" by simp_all
  from Suc.prems(1) lt have ne: "Addr (arr ! index) \<noteq> Addr remote" by simp
  have "add_loop remote n arr m index = add_loop remote n arr m (index + 1)"
    using lt ne by (subst add_loop.simps) simp
  also have "\<dots> = add_loop remote n arr m k"
    using Suc.hyps(1) [of "index + 1"] Suc.hyps(2) Suc.prems lt by simp
  finally show ?case .
qed

lemma add_loop_same:
  assumes len: "length arr = n" and k: "k < n"
    and before: "\<forall>j<k. Addr (arr ! j) \<noteq> Addr remote"
    and hit: "Addr (arr ! k) = Addr remote" and same: "Pos (arr ! k) = Pos remote"
  shows "add_loop remote n arr n 0 = Inr (Return, arr)"
proof -
  have "add_loop remote n arr n 0 = add_loop remote n arr n k"
    using before k by (intro add_loop_skip) simp_all
  also have "\<dots> = Inr (Return, take n arr)"
    using k hit same by (subst add_loop.simps) (simp add: bytes_Compare_eq0)
  finally show ?thesis using len by simp
qed

lemma add_loop_moved:
  assumes len: "length arr = n" and k: "k < n"
    and before: "\<forall>j<k. Addr (arr ! j) \<noteq> Addr remote"
    and hit: "Addr (arr ! k) = Addr remote" and moved: "Pos (arr ! k) \<noteq> Pos remote"
    and after: "\<forall>x\<in>set (drop (k + 1) arr). Addr x \<noteq> Addr remote"
  shows "add_loop remote n arr n 0 = Inr (Fallthrough, take k arr @ drop (k + 1) arr)"
proof -
  let ?arr' = "delete_in_place arr n k"
  have kn: "k + 1 \<le> n" "n \<le> length arr" using k len by simp_all
  have "add_loop remote n arr n 0 = add_loop remote n arr n k"
    using before k by (intro add_loop_skip) simp_all
  also have "\<dots> = add_loop remote n ?arr' (n - 1) (k + 1)"
    using k hit moved by (subst add_loop.simps) (simp add: bytes_Compare_eq0)
  also have "\<dots> = Inr (Fallthrough, take (n - 1) ?arr')"
  proof (rule add_loop_no_match)
    show "length ?arr' = n" using length_delete_in_place [OF kn] len by simp
    show "\<forall>x\<in>set (drop (k + 1) ?arr'). Addr x \<noteq> Addr remote"
      using set_drop_delete_in_place [OF kn] after by blast
  qed
  also have "take (n - 1) ?arr' = take k arr @ drop (k + 1) arr"
    using take_delete_in_place [OF kn] len by simp
  finally show ?thesis .
qed

lemma distinct_Addr_at:
  assumes d: "distinct (map Addr ns)" and k: "k < length ns" and hit: "Addr (ns ! k) = a"
  shows "\<forall>j<k. Addr (ns ! j) \<noteq> a"
    and "\<forall>x\<in>set (drop (k + 1) ns). Addr x \<noteq> a"
    and "take k ns @ drop (k + 1) ns = filter (\<lambda>x. Addr x \<noteq> a) ns"
    and "\<forall>y\<in>set ns. Addr y = a \<longrightarrow> y = ns ! k"
proof -
  define A where "A = take k ns"
  define B where "B = drop (Suc k) ns"
  define x where "x = ns ! k"
  have ns_eq: "ns = A @ x # B" unfolding A_def B_def x_def using k by (rule id_take_nth_drop)
  have lenA: "length A = k" using k by (simp add: A_def)
  from d have "distinct (map Addr (A @ x # B))" by (simp only: ns_eq [symmetric])
  then have "Addr x \<notin> Addr ` set A" and "Addr x \<notin> Addr ` set B" by auto
  then have nA: "\<forall>y\<in>set A. Addr y \<noteq> Addr x" and nB: "\<forall>y\<in>set B. Addr y \<noteq> Addr x"
    by (simp_all add: image_iff) metis+
  have ax: "Addr x = a" using hit by (simp add: x_def)
  show "\<forall>j<k. Addr (ns ! j) \<noteq> a"
  proof (intro allI impI)
    fix j assume "j < k"
    then have "ns ! j = A ! j" by (simp add: A_def)
    moreover have "A ! j \<in> set A" using \<open>j < k\<close> lenA by (intro nth_mem) simp
    ultimately show "Addr (ns ! j) \<noteq> a" using nA ax by simp
  qed
  show "\<forall>y\<in>set ns. Addr y = a \<longrightarrow> y = ns ! k"
  proof (intro ballI impI)
    fix y assume "y \<in> set ns" and ya: "Addr y = a"
    then have "y \<in> set (A @ x # B)" by (simp only: ns_eq [symmetric])
    then have "y \<in> set A \<or> y = x \<or> y \<in> set B" by auto
    with nA nB ax ya show "y = ns ! k" unfolding x_def by blast
  qed
  show "\<forall>x\<in>set (drop (k + 1) ns). Addr x \<noteq> a" using nB ax by (simp add: B_def)
  have "filter (\<lambda>x. Addr x \<noteq> a) (A @ x # B) = A @ B"
    using nA nB ax by (simp add: filter_id_conv)
  then show "take k ns @ drop (k + 1) ns = filter (\<lambda>x. Addr x \<noteq> a) ns"
    unfolding ns_eq [symmetric] by (simp add: A_def B_def)
qed

lemma Ring_remove_distinct:
  assumes d: "distinct (map Addr ns)"
  shows "Ring_remove ns remote = Inr (filter (\<lambda>x. Addr x \<noteq> Addr remote) ns)"
proof (cases "\<exists>x\<in>set ns. Addr x = Addr remote")
  case False
  then have "remove_loop remote (length ns) ns (length ns) 0 = Inr (take (length ns) ns)"
    by (intro remove_loop_no_match) simp_all
  moreover have "filter (\<lambda>x. Addr x \<noteq> Addr remote) ns = ns"
    using False by (simp add: filter_id_conv)
  ultimately show ?thesis by (simp add: Ring_remove_def)
next
  case True
  then obtain k where k: "k < length ns" and hit: "Addr (ns ! k) = Addr remote"
    by (auto simp add: in_set_conv_nth)
  note f = distinct_Addr_at [OF d k hit]
  have "remove_loop remote (length ns) ns (length ns) 0 = Inr (take k ns @ drop (k + 1) ns)"
    using k hit f(1,2) by (intro remove_loop_at) simp_all
  then show ?thesis using f(3) by (simp add: Ring_remove_def)
qed

lemma add_loop_distinct:
  assumes d: "distinct (map Addr ns)"
  shows "add_loop remote (length ns) ns (length ns) 0 =
     (if \<exists>x\<in>set ns. Addr x = Addr remote \<and> Pos x = Pos remote
      then Inr (Return, ns)
      else Inr (Fallthrough, filter (\<lambda>x. Addr x \<noteq> Addr remote) ns))"
proof (cases "\<exists>x\<in>set ns. Addr x = Addr remote")
  case False
  then have "add_loop remote (length ns) ns (length ns) 0 = Inr (Fallthrough, take (length ns) ns)"
    by (intro add_loop_no_match) simp_all
  moreover have "filter (\<lambda>x. Addr x \<noteq> Addr remote) ns = ns"
    using False by (simp add: filter_id_conv)
  moreover have "\<not> (\<exists>x\<in>set ns. Addr x = Addr remote \<and> Pos x = Pos remote)"
    using False by blast
  ultimately show ?thesis by simp
next
  case True
  then obtain k where k: "k < length ns" and hit: "Addr (ns ! k) = Addr remote"
    by (auto simp add: in_set_conv_nth)
  note f = distinct_Addr_at [OF d k hit]
  have uniq: "\<And>x. x \<in> set ns \<Longrightarrow> Addr x = Addr remote \<Longrightarrow> x = ns ! k"
    using f(4) by blast
  show ?thesis
  proof (cases "Pos (ns ! k) = Pos remote")
    case same: True
    have "add_loop remote (length ns) ns (length ns) 0 = Inr (Return, ns)"
      using k hit same f(1) by (intro add_loop_same) simp_all
    moreover have "\<exists>x\<in>set ns. Addr x = Addr remote \<and> Pos x = Pos remote"
      using k hit same nth_mem by blast
    ultimately show ?thesis by simp
  next
    case moved: False
    have "add_loop remote (length ns) ns (length ns) 0
          = Inr (Fallthrough, take k ns @ drop (k + 1) ns)"
      using k hit moved f(1,2) by (intro add_loop_moved) simp_all
    moreover have "\<not> (\<exists>x\<in>set ns. Addr x = Addr remote \<and> Pos x = Pos remote)"
      using uniq moved by blast
    ultimately show ?thesis using f(3) by simp
  qed
qed

lemma insert_sorted_eq:
  "insert_sorted ns remote =
     take (Search (length ns) (\<lambda>i. Remote_less remote (ns ! i))) ns
     @ remote # drop (Search (length ns) (\<lambda>i. Remote_less remote (ns ! i))) ns"
  using Search_le [of "length ns" "\<lambda>i. Remote_less remote (ns ! i)"]
  by (simp add: insert_sorted_def Let_def)

lemma insert_sorted_inv:
  assumes s: "sorted_wrt Remote_less ns" and d: "distinct (map Addr ns)"
    and fresh: "\<forall>x\<in>set ns. Addr x \<noteq> Addr remote"
  shows "sorted_wrt Remote_less (insert_sorted ns remote)
       \<and> distinct (map Addr (insert_sorted ns remote))"
proof -
  let ?f = "\<lambda>i. Remote_less remote (ns ! i)"
  define i where "i = Search (length ns) ?f"
  have mono: "\<forall>a b. a \<le> b \<and> b < length ns \<and> ?f a \<longrightarrow> ?f b"
  proof (intro allI impI)
    fix a b assume h: "a \<le> b \<and> b < length ns \<and> ?f a"
    show "?f b"
    proof (cases "a = b")
      case True
      with h show ?thesis by simp
    next
      case False
      with h have ab: "a < b" and b: "b < length ns" and ra: "Remote_less remote (ns ! a)"
        by simp_all
      have "Remote_less (ns ! a) (ns ! b)" by (rule sorted_wrt_nth_less [OF s ab b])
      with ra show ?thesis by (rule Remote_less_trans)
    qed
  qed
  note sm = Search_monotone [OF mono, folded i_def]
  from sm have sm1: "\<forall>k<i. \<not> Remote_less remote (ns ! k)" by (rule conjunct1 [OF conjunct2])
  from sm have sm2: "\<forall>k. i \<le> k \<and> k < length ns \<longrightarrow> Remote_less remote (ns ! k)"
    by (rule conjunct2 [OF conjunct2])
  have low: "\<forall>x\<in>set (take i ns). Remote_less x remote"
  proof
    fix x assume x: "x \<in> set (take i ns)"
    from in_set_take_nth [OF x] obtain k where k: "k < i" "k < length ns" "x = ns ! k"
      by blast
    then have "\<not> Remote_less remote x" using sm1 by blast
    moreover have "x \<in> set ns" using x by (rule in_set_takeD)
    then have "Addr remote \<noteq> Addr x" using fresh by auto
    ultimately show "Remote_less x remote" by (rule Remote_less_total)
  qed
  have high: "\<forall>y\<in>set (drop i ns). Remote_less remote y"
  proof
    fix y assume y: "y \<in> set (drop i ns)"
    from in_set_drop_nth [OF y] obtain k where k: "i \<le> k" "k < length ns" "y = ns ! k"
      by blast
    then show "Remote_less remote y" using sm2 by blast
  qed
  from s have "sorted_wrt Remote_less (take i ns @ drop i ns)" by simp
  then have parts: "sorted_wrt Remote_less (take i ns)" "sorted_wrt Remote_less (drop i ns)"
    "\<forall>x\<in>set (take i ns). \<forall>y\<in>set (drop i ns). Remote_less x y"
    unfolding sorted_wrt_append by simp_all
  have 1: "sorted_wrt Remote_less (take i ns @ remote # drop i ns)"
    unfolding sorted_wrt_append using parts low high by simp
  from d have "distinct (map Addr (take i ns @ drop i ns))" by simp
  then have dparts: "distinct (map Addr (take i ns))" "distinct (map Addr (drop i ns))"
    "Addr ` set (take i ns) \<inter> Addr ` set (drop i ns) = {}"
    unfolding map_append distinct_append set_map by simp_all
  have "Addr remote \<notin> Addr ` set (take i ns)" "Addr remote \<notin> Addr ` set (drop i ns)"
    using fresh set_take_subset [of i ns] set_drop_subset [of i ns] by auto
  then have 2: "distinct (map Addr (take i ns @ remote # drop i ns))"
    using dparts by simp
  show ?thesis unfolding insert_sorted_eq i_def [symmetric] using 1 2 by simp
qed

lemma Ring_add_inv:
  assumes s: "sorted_wrt Remote_less ns" and d: "distinct (map Addr ns)"
  shows "\<exists>ns'. Ring_add ns remote = Inr ns' \<and> sorted_wrt Remote_less ns' \<and> distinct (map Addr ns')"
proof (cases "\<exists>x\<in>set ns. Addr x = Addr remote \<and> Pos x = Pos remote")
  case True
  then have "Ring_add ns remote = Inr ns"
    unfolding Ring_add_def add_loop_distinct [OF d] if_P [OF True] by simp
  with s d show ?thesis by simp
next
  case False
  let ?ns = "filter (\<lambda>x. Addr x \<noteq> Addr remote) ns"
  have eq: "Ring_add ns remote = Inr (insert_sorted ?ns remote)"
    unfolding Ring_add_def add_loop_distinct [OF d] if_not_P [OF False] by simp
  have "sorted_wrt Remote_less ?ns" using s by (rule sorted_wrt_filter)
  moreover have "distinct (map Addr ?ns)" using d by (rule distinct_map_filter)
  moreover have "\<forall>x\<in>set ?ns. Addr x \<noteq> Addr remote" by simp
  ultimately show ?thesis using insert_sorted_inv eq by blast
qed

lemma Ring_remove_inv:
  assumes s: "sorted_wrt Remote_less ns" and d: "distinct (map Addr ns)"
  shows "\<exists>ns'. Ring_remove ns remote = Inr ns' \<and> sorted_wrt Remote_less ns' \<and> distinct (map Addr ns')"
  unfolding Ring_remove_distinct [OF d]
  using sorted_wrt_filter [OF s] distinct_map_filter [OF d] by simp

text \<open>
  Claim C8. For every ring that is strictly sorted under the Remote order and whose
  addresses are pairwise distinct, \<open>Ring.add(r)\<close> and \<open>Ring.remove(r)\<close> both return without
  a panic, and the ring after either of them is again strictly sorted under that order
  with pairwise distinct addresses.
\<close>

theorem ring_invariant_preserved:
  assumes "sorted_wrt Remote_less ns" and "distinct (map Addr ns)"
  shows "(\<exists>ns'. Ring_add ns r = Inr ns' \<and> sorted_wrt Remote_less ns' \<and> distinct (map Addr ns'))
       \<and> (\<exists>ns'. Ring_remove ns r = Inr ns' \<and> sorted_wrt Remote_less ns' \<and> distinct (map Addr ns'))"
  using Ring_add_inv [OF assms] Ring_remove_inv [OF assms] by simp

text \<open>The entry \<open>b\<close> of \<open>ring_abc\<close> is moved to the end, or removed.\<close>

lemma ring_abc_sorted: "sorted_wrt Remote_less ring_abc"
  by (simp add: ring_abc_def Remote_less_def string_bytes_def)

theorem ring_invariant_preserved_witness:
  "(\<exists>ns'. Ring_add ring_abc \<lparr>Pos = [0x35], Addr = ''b''\<rparr> = Inr ns'
          \<and> sorted_wrt Remote_less ns' \<and> distinct (map Addr ns'))
   \<and> (\<exists>ns'. Ring_remove ring_abc \<lparr>Pos = [0x35], Addr = ''b''\<rparr> = Inr ns'
          \<and> sorted_wrt Remote_less ns' \<and> distinct (map Addr ns'))"
proof -
  have d: "distinct (map Addr ring_abc)" by (simp add: ring_abc_def)
  show ?thesis by (rule ring_invariant_preserved [OF ring_abc_sorted d])
qed

section \<open>Adding and removing the same remote\<close>

lemma add_then_remove_fresh:
  assumes fresh: "\<forall>x\<in>set ns. Addr x \<noteq> Addr remote"
  shows "add_then_remove ns remote = Inr ns"
proof -
  define i where "i = Search (length ns) (\<lambda>i. Remote_less remote (ns ! i))"
  define arr where "arr = take i ns @ remote # drop i ns"
  have i: "i \<le> length ns" unfolding i_def by (rule Search_le)
  have "add_loop remote (length ns) ns (length ns) 0 = Inr (Fallthrough, take (length ns) ns)"
    using fresh by (intro add_loop_no_match) simp_all
  then have add: "Ring_add ns remote = Inr arr"
    by (simp add: Ring_add_def insert_sorted_eq arr_def i_def)
  have len: "length arr = length ns + 1" using i by (simp add: arr_def)
  have lt: "length (take i ns) = i" using i by simp
  have "remove_loop remote (length arr) arr (length arr) 0 = Inr (take i arr @ drop (i + 1) arr)"
  proof (rule remove_loop_at)
    show "length arr = length arr" by simp
    show "i < length arr" using i len by simp
    show "\<forall>j<i. Addr (arr ! j) \<noteq> Addr remote"
    proof (intro allI impI)
      fix j assume "j < i"
      then have "arr ! j = ns ! j" using i by (simp add: arr_def nth_append)
      moreover have "ns ! j \<in> set ns" using \<open>j < i\<close> i by simp
      ultimately show "Addr (arr ! j) \<noteq> Addr remote" using fresh by simp
    qed
    show "Addr (arr ! i) = Addr remote" using lt by (simp add: arr_def nth_append)
    have "drop (i + 1) arr = drop i ns" using lt by (simp add: arr_def)
    then show "\<forall>x\<in>set (drop (i + 1) arr). Addr x \<noteq> Addr remote"
      using fresh set_drop_subset [of i ns] by auto
  qed
  moreover have "take i arr @ drop (i + 1) arr = ns" using lt by (simp add: arr_def)
  ultimately have "Ring_remove arr remote = Inr ns" by (simp add: Ring_remove_def)
  with add show ?thesis by (simp add: add_then_remove_def)
qed

text \<open>
  Claim C9 says that \<open>add(r)\<close> followed by \<open>remove(r)\<close> restores every ring. On the ring
  that holds \<open>r\<close> alone, \<open>add(r)\<close> changes nothing and \<open>remove(r)\<close> empties the ring.
\<close>

theorem add_then_remove_counterexample:
  "add_then_remove [\<lparr>Pos = [0x10], Addr = ''a''\<rparr>] \<lparr>Pos = [0x10], Addr = ''a''\<rparr> = Inr []"
  by code_simp

text \<open>
  Claim C9, amended. For every ring (sorted or not) in which no entry has the address of
  \<open>r\<close>, \<open>Ring.add(r)\<close> followed by \<open>Ring.remove(r)\<close> returns without a panic and restores the
  ring to exactly its prior node sequence.
\<close>

theorem add_then_remove_restores:
  assumes "\<forall>x\<in>set ns. Addr x \<noteq> Addr r"
  shows "add_then_remove ns r = Inr ns"
  using assms by (rule add_then_remove_fresh)

text \<open>A remote with the new address \<open>d\<close> is added to \<open>ring_abc\<close> and removed again.\<close>

theorem add_then_remove_restores_witness:
  "add_then_remove ring_abc \<lparr>Pos = [0x25], Addr = ''d''\<rparr> = Inr ring_abc"
proof -
  have "\<forall>x\<in>set ring_abc. Addr x \<noteq> Addr \<lparr>Pos = [0x25], Addr = ''d''\<rparr>"
    by (simp add: ring_abc_def)
  then show ?thesis by (rule add_then_remove_restores)
qed

section \<open>Ring.clean\<close>

text \<open>
  On a ring sorted by position that has an entry at the successor position, \<open>from\<close> is the
  first index above the predecessor position (or \<open>0\<close>) and \<open>to\<close> the first index at the
  successor position. The entries from \<open>from\<close> up to \<open>to\<close>, circularly, are the ones
  strictly between the two positions, and they are the ones that \<open>clean\<close> drops.
\<close>

lemma go_slice_nat:
  "a \<le> b \<Longrightarrow> b \<le> length s \<Longrightarrow> go_slice s (int a) (int b) = Inr (take (b - a) (drop a s))"
  by (simp add: go_slice_def)

lemma Ring_clean_sorted:
  assumes s: "sorted (map Pos ns)" and occ: "\<exists>x\<in>set ns. Pos x = successor"
  shows "Ring_clean ns predecessor successor
         = Inr (filter (\<lambda>r. \<not> strictly_between predecessor successor (Pos r)) ns)"
proof -
  let ?n = "length ns"
  let ?hp = "count_upto ns predecessor"
  let ?ls = "count_below ns successor" and ?hs = "count_upto ns successor"
  let ?P = "\<lambda>r. \<not> strictly_between predecessor successor (Pos r)"
  have hp: "?hp \<le> ?n" by (rule count_upto_le)
  have hs: "?hs \<le> ?n" by (rule count_upto_le)
  from occ obtain k0 where k0: "k0 < ?n" "Pos (ns ! k0) = successor"
    by (auto simp add: in_set_conv_nth)
  then have k0b: "?ls \<le> k0" "k0 < ?hs" by (simp_all add: at_iff [OF s])
  then have lshs: "?ls < ?hs" by simp
  then have lsn: "?ls < ?n" using hs by simp
  have from_eq: "snd (snd (Ring_indices ns predecessor)) = (if ?hp < ?n then int ?hp else 0)"
    by (rule Ring_indices_after_eq [OF s])
  have at_eq: "fst (snd (Ring_indices ns successor)) = int ?ls"
    using Ring_indices_at_eq [OF s, of successor] lshs by simp
  have clean_eq: "Ring_clean ns predecessor successor =
      (let from = (if ?hp < ?n then int ?hp else 0); to = int ?ls
       in if from > to then go_slice ns to from
          else (case go_slice ns 0 from of
                  Inl e \<Rightarrow> Inl e
                | Inr front \<Rightarrow>
                    (case go_slice ns to (int ?n) of
                       Inl e \<Rightarrow> Inl e
                     | Inr back \<Rightarrow> Inr (front @ back))))"
    unfolding Ring_clean_def from_eq at_eq Let_def by simp
  have above: "\<And>k. k < ?n \<Longrightarrow> bytes_Compare predecessor (Pos (ns ! k)) < 0 \<longleftrightarrow> ?hp \<le> k"
    by (rule above_iff [OF s])
  have below: "\<And>k. k < ?n \<Longrightarrow> bytes_Compare (Pos (ns ! k)) successor < 0 \<longleftrightarrow> k < ?ls"
    by (rule below_iff [OF s])
  show ?thesis
  proof (cases "bytes_Compare predecessor successor < 0")
    case True
    then have ps: "predecessor < successor" by (simp add: bytes_Compare_lt0)
    have le: "?hp \<le> ?ls"
    proof (rule ccontr)
      assume "\<not> ?hp \<le> ?ls"
      then have "?ls < ?hp" by simp
      then have "Pos (ns ! ?ls) \<le> predecessor" using upto_nth(1) [OF s] by blast
      with ps have "Pos (ns ! ?ls) < successor" by simp
      moreover have "successor \<le> Pos (ns ! ?ls)"
        using below_nth(2) [OF s, of successor] lsn by blast
      ultimately show False by simp
    qed
    then have hpn: "?hp < ?n" using lsn by simp
    have P: "\<forall>k<?n. ?P (ns ! k) \<longleftrightarrow> k < ?hp \<or> ?ls \<le> k"
      using True by (auto simp add: strictly_between_def above below)
    have "filter ?P ns = take ?hp ns @ drop ?ls ns"
      using le lsn P by (intro filter_index_outside) simp_all
    moreover have "Ring_clean ns predecessor successor = Inr (take ?hp ns @ drop ?ls ns)"
      unfolding clean_eq using le hpn lsn
      by (simp add: go_slice_nat [of 0, simplified] go_slice_nat)
    ultimately show ?thesis by simp
  next
    case False
    then have sp: "successor \<le> predecessor" by (simp add: bytes_Compare_lt0)
    have "Pos (ns ! k0) \<le> predecessor" using sp k0 by simp
    then have "\<not> ?hp \<le> k0" using upto_nth(2) [OF s, of predecessor] k0(1)
      by (meson not_le)
    then have lt: "?ls < ?hp" using k0b by simp
    have P: "\<forall>k<?n. ?P (ns ! k) \<longleftrightarrow> ?ls \<le> k \<and> k < ?hp"
      using False by (auto simp add: strictly_between_def above below)
    have f: "filter ?P ns = take (?hp - ?ls) (drop ?ls ns)"
      using lt hp P by (intro filter_index_inside) simp_all
    show ?thesis
    proof (cases "?hp < ?n")
      case True
      have "Ring_clean ns predecessor successor = Inr (take (?hp - ?ls) (drop ?ls ns))"
        unfolding clean_eq using lt True by (simp add: go_slice_nat)
      with f show ?thesis by simp
    next
      case False
      with hp have hpn: "?hp = ?n" by simp
      have "Ring_clean ns predecessor successor = Inr (drop ?ls ns)"
        unfolding clean_eq using hpn lsn
        by (simp add: go_slice_nat [of 0 0, simplified] go_slice_nat)
      with f hpn show ?thesis by simp
    qed
  qed
qed

text \<open>
  Claim C2 says that \<open>clean\<close> removes exactly the entries outside the arc from the
  predecessor (exclusive) to the successor (inclusive). On the ring with entries at
  \<open>10\<close>, \<open>20\<close> and \<open>30\<close>, \<open>clean(10, 30)\<close> removes the entry at \<open>20\<close>, which is inside that
  arc, and keeps the entry at \<open>10\<close>, which is outside it; the claim would keep \<open>20\<close> and
  \<open>30\<close>.
\<close>

theorem Ring_clean_counterexample:
  "Ring_clean [\<lparr>Pos = [0x10], Addr = ''a''\<rparr>, \<lparr>Pos = [0x20], Addr = ''b''\<rparr>,
               \<lparr>Pos = [0x30], Addr = ''c''\<rparr>] [0x10] [0x30]
     = Inr [\<lparr>Pos = [0x10], Addr = ''a''\<rparr>, \<lparr>Pos = [0x30], Addr = ''c''\<rparr>]
   \<and> clean_spec [\<lparr>Pos = [0x10], Addr = ''a''\<rparr>, \<lparr>Pos = [0x20], Addr = ''b''\<rparr>,
                  \<lparr>Pos = [0x30], Addr = ''c''\<rparr>] [0x10] [0x30]
     = [\<lparr>Pos = [0x20], Addr = ''b''\<rparr>, \<lparr>Pos = [0x30], Addr = ''c''\<rparr>]"
  by code_simp

text \<open>
  Claim C2, amended. For every ring sorted under the Remote order that has an entry at
  \<open>successorPos\<close>, and every \<open>predecessorPos\<close>, \<open>Ring.clean\<close> returns without a panic and
  removes exactly the entries whose position lies strictly between \<open>predecessorPos\<close> and
  \<open>successorPos\<close> on the circle (both ends exclusive; the arc wraps when \<open>predecessorPos\<close>
  is not below \<open>successorPos\<close>); every other entry remains, in order.
\<close>

theorem Ring_clean_removes_between:
  assumes "sorted_wrt Remote_less ns" and "\<exists>x\<in>set ns. Pos x = successor"
  shows "Ring_clean ns predecessor successor
         = Inr (filter (\<lambda>r. \<not> strictly_between predecessor successor (Pos r)) ns)"
  using Ring_clean_sorted [OF sorted_wrt_Remote_less_Pos [OF assms(1)] assms(2)] .

text \<open>On \<open>ring_abc\<close>, \<open>clean(10, 30)\<close> removes the entry at \<open>20\<close> and nothing else.\<close>

theorem Ring_clean_removes_between_witness:
  "Ring_clean ring_abc [0x10] [0x30]
     = Inr [\<lparr>Pos = [0x10], Addr = ''a''\<rparr>, \<lparr>Pos = [0x30], Addr = ''c''\<rparr>]"
proof -
  have "\<exists>x\<in>set ring_abc. Pos x = [0x30]" by (simp add: ring_abc_def)
  from Ring_clean_removes_between [OF ring_abc_sorted this, of "[0x10]"]
  show ?thesis by (simp add: ring_abc_def strictly_between_def)
qed

section \<open>Ring.getSlot\<close>

text \<open>The integers and byte strings of the ring with entries at \<open>00..\<close> and \<open>C0..\<close>.\<close>

lemma SetBytes_b00: "SetBytes b00 = 0"
  by (simp add: SetBytes_def b00_def)

lemma SetBytes_bC0: "SetBytes bC0 = 0xC0000000000000000000000000000000"
  by (simp add: SetBytes_def bC0_def)

lemma SetBytes_max: "SetBytes (1 # replicate murmur_Size 0) = 0x100000000000000000000000000000000"
  by (simp add: SetBytes_def murmur_Size_def eval_nat_numeral)

lemma nat_Bytes_step: "0 < k \<Longrightarrow> nat_Bytes k = nat_Bytes (k div 256) @ [word_of_nat (k mod 256)]"
  by (subst nat_Bytes.simps) simp

lemma nat_Bytes_0: "nat_Bytes 0 = []"
  by (subst nat_Bytes.simps) simp

lemma Bytes_E0: "Bytes 0xE0000000000000000000000000000000 = bE0"
  by (simp add: Bytes_def nat_Bytes_step nat_Bytes_0 bE0_def)

lemma Bytes_60: "Bytes 0x60000000000000000000000000000000 = b60"
  by (simp add: Bytes_def nat_Bytes_step nat_Bytes_0 b60_def)

lemma getSlot_fold_value: "foldl (getSlot_step ring_00_C0) (0, 0) [0..<length ring_00_C0]
   = (0x40000000000000000000000000000000, 1)"
proof -
  have l: "[0..<length ring_00_C0] = [0, 1]" by (simp add: ring_00_C0_def upt_rec)
  have s0: "getSlot_step ring_00_C0 (0, 0) 0 = (0, 0)"
    by (simp add: getSlot_step_def ring_00_C0_def Let_def)
  have s1: "getSlot_step ring_00_C0 (0, 0) (Suc 0) = (0x40000000000000000000000000000000, Suc 0)"
    by (simp add: getSlot_step_def ring_00_C0_def Let_def SetBytes_b00 SetBytes_bC0 SetBytes_max)
  show ?thesis unfolding l by (simp add: s0 s1)
qed

lemma getSlot_spec_fold_value: "foldl (getSlot_spec_step ring_00_C0) (0, 0) [0..<length ring_00_C0]
   = (0xC0000000000000000000000000000000, 0)"
proof -
  have l: "[0..<length ring_00_C0] = [0, 1]" by (simp add: ring_00_C0_def upt_rec)
  have s0: "getSlot_spec_step ring_00_C0 (0, 0) 0 = (0xC0000000000000000000000000000000, 0)"
    by (simp add: getSlot_spec_step_def ring_00_C0_def Let_def SetBytes_b00 SetBytes_bC0)
  have s1: "getSlot_spec_step ring_00_C0 (0xC0000000000000000000000000000000, 0) (Suc 0)
            = (0xC0000000000000000000000000000000, 0)"
    by (simp add: getSlot_spec_step_def ring_00_C0_def Let_def SetBytes_b00 SetBytes_bC0 SetBytes_max)
  show ?thesis unfolding l by (simp add: s0 s1)
qed

text \<open>
  Claim C3 says that \<open>getSlot\<close> returns the midpoint of the largest arc also when that arc
  is not the wrap arc. On the ring with entries at \<open>00..\<close> and \<open>C0..\<close> the largest arc runs
  from \<open>00..\<close> to \<open>C0..\<close>, with midpoint \<open>60..\<close>, which is what the specification's wording
  computes. \<open>Ring.getSlot\<close> measures every arc but the last from an entry to itself, finds
  only the wrap arc from \<open>C0..\<close>, and returns its midpoint \<open>E0..\<close>.
\<close>

theorem getSlot_ignores_inner_arcs:
  "Ring_getSlot ring_00_C0 = Inr bE0 \<and> getSlot_spec ring_00_C0 = Inr b60"
proof -
  have "Ring_getSlot ring_00_C0 = Inr bE0"
    unfolding Ring_getSlot_def getSlot_fold_value
    by (simp add: ring_00_C0_def SetBytes_bC0 Bytes_E0)
  moreover have "getSlot_spec ring_00_C0 = Inr b60"
    unfolding getSlot_spec_def getSlot_spec_fold_value
    by (simp add: ring_00_C0_def SetBytes_b00 Bytes_60)
  ultimately show ?thesis by simp
qed

section \<open>Node.sync\<close>

text \<open>\<open>sync\<close> changes the calls of the node and nothing else; it stores no timestamp.\<close>

lemma Node_sync_lastSync: "lastSync (Node_sync E self) = lastSync self"
  by (simp add: Node_sync_def split: prod.splits)

lemma Node_sync_timestamps:
  "lastSync (Node_sync E self) = lastSync self
   \<and> lastReroute (Node_sync E self) = lastReroute self
   \<and> lastMigrate (Node_sync E self) = lastMigrate self"
  by (simp add: Node_sync_def split: prod.splits)

text \<open>
  Claim C1 says that after every completed iteration of the loop of \<open>syncPeriodically\<close>
  the timestamp \<open>lastSync\<close> holds the current time, so that the quiescence gate of
  \<open>migrate\<close> sees a recent \<open>lastSync\<close>. The iteration on a started node does complete, and
  \<open>lastSync\<close> is what it was before, whatever the time: \<open>0\<close> on the node \<open>node0\<close>, and
  \<open>5\<close> on the same node with \<open>lastSync\<close> set to \<open>5\<close>.
\<close>

theorem sync_iteration_keeps_lastSync:
  "map_option lastSync (syncPeriodically_iteration env0 node0) = Some 0
   \<and> map_option lastSync (syncPeriodically_iteration env0 (node0\<lparr>lastSync := 5\<rparr>)) = Some 5"
  by (simp add: syncPeriodically_iteration_def hasState_def node0_def Node_sync_lastSync)

section \<open>Node.changePosition\<close>

text \<open>The padding loop appends zero bytes up to the length \<open>murmur.Size\<close>.\<close>

lemma pad_eq: "pad newPos = newPos @ replicate (murmur_Size - length newPos) 0"
proof (induction newPos rule: pad.induct)
  case (1 newPos)
  show ?case
  proof (cases "length newPos < murmur_Size")
    case True
    then have "pad newPos = pad (newPos @ [0])" by (subst pad.simps) simp
    also have "\<dots> = (newPos @ [0]) @ replicate (murmur_Size - length (newPos @ [0])) 0"
      by (rule "1.IH" [OF True])
    also have "\<dots> = newPos @ replicate (Suc (murmur_Size - Suc (length newPos))) 0"
      by simp
    also have "Suc (murmur_Size - Suc (length newPos)) = murmur_Size - length newPos"
      using True by simp
    finally show ?thesis .
  next
    case False
    then show ?thesis by (subst pad.simps) simp
  qed
qed

lemma Node_changePosition_eq:
  "Node_changePosition E now newPos self =
     (let padded = newPos @ replicate (murmur_Size - length newPos) 0;
          oldPos = GetPosition E (calls self)
      in if padded = oldPos then self
         else self\<lparr>calls := calls self @ [SetPosition padded]
                         @ map (\<lambda>l. MigrateListenerCall l oldPos padded) (migrateListeners self),
                   lastMigrate := now\<rparr>)"
  by (simp add: Node_changePosition_def pad_eq Let_def bytes_Compare_eq0)

text \<open>
  Claim C10. \<open>Node.changePosition\<close> first pads the new position on the right with zero
  bytes to the length \<open>murmur.Size\<close>. If the padded position equals the current position,
  the node is unchanged: no \<open>SetPosition\<close>, no store to \<open>lastMigrate\<close>, no listener.
  Otherwise it calls \<open>SetPosition\<close> with the padded position, stores the time in
  \<open>lastMigrate\<close> and invokes every migrate listener, in order, with the old and the padded
  new position; nothing else changes.
\<close>

theorem changePosition_effect:
  "Node_changePosition E now newPos self =
     (let padded = newPos @ replicate (murmur_Size - length newPos) 0;
          oldPos = GetPosition E (calls self)
      in if padded = oldPos then self
         else self\<lparr>calls := calls self @ [SetPosition padded]
                         @ map (\<lambda>l. MigrateListenerCall l oldPos padded) (migrateListeners self),
                   lastMigrate := now\<rparr>)"
  by (rule Node_changePosition_eq)

text \<open>
  On \<open>node0\<close> at \<open>80..\<close>: the position \<open>40\<close> is padded and set, the position \<open>80\<close> pads to
  the current position and changes nothing.
\<close>

lemma pad_40: "[0x40] @ replicate (murmur_Size - length [0x40 :: byte]) 0 = b40"
  by code_simp

lemma pad_80: "[0x80] @ replicate (murmur_Size - length [0x80 :: byte]) 0 = b80"
  by code_simp

theorem changePosition_effect_witness:
  "Node_changePosition env0 6000000000 [0x40] node0
     = node0\<lparr>calls := [SetPosition b40, MigrateListenerCall 9 b80 b40], lastMigrate := 6000000000\<rparr>
   \<and> Node_changePosition env0 6000000000 [0x80] node0 = node0"
  unfolding changePosition_effect pad_40 pad_80
  by (simp add: Let_def env0_def node0_def b40_def b80_def)

section \<open>Node.Owned\<close>

text \<open>
  Claim C5. \<open>Node.Owned\<close> returns \<open>RealSizeBetween(pred.Pos, self.Pos, true, false)\<close> when
  \<open>pred.Pos < self.Pos\<close>; the sum of \<open>RealSizeBetween(pred.Pos, nil, true, false)\<close> and
  \<open>RealSizeBetween(nil, self.Pos, true, false)\<close> when \<open>pred.Pos > self.Pos\<close>; and when the two
  positions are equal, \<open>0\<close> if the predecessor is less than the node under the Remote
  order, else \<open>RealSize()\<close>.
\<close>

theorem Owned_cases:
  "(bytes_Compare (Pos (GetPredecessor E h)) (Pos (GetRemote E h)) < 0 \<longrightarrow>
      Node_Owned E h = RealSizeBetween E h (Some (Pos (GetPredecessor E h))) (Some (Pos (GetRemote E h))) True False)
   \<and> (bytes_Compare (Pos (GetPredecessor E h)) (Pos (GetRemote E h)) > 0 \<longrightarrow>
      Node_Owned E h = RealSizeBetween E h (Some (Pos (GetPredecessor E h))) None True False
                     + RealSizeBetween E h None (Some (Pos (GetRemote E h))) True False)
   \<and> (Pos (GetPredecessor E h) = Pos (GetRemote E h) \<longrightarrow>
      Node_Owned E h = (if Remote_less (GetPredecessor E h) (GetRemote E h) then 0 else RealSize E h))"
  by (simp add: Node_Owned_def Let_def Less_def bytes_Compare_cases)

text \<open>
  The four cases on \<open>env0\<close> and its variants: predecessor below the node, above it, at the
  same position with a greater address, at the same position with a smaller address.
\<close>

theorem Owned_cases_witness:
  "Node_Owned env0 [] = 20 \<and> Node_Owned env_wrapped [] = 8
   \<and> Node_Owned env_same [] = 30 \<and> Node_Owned env_below [] = 0"
proof -
  have 1: "Node_Owned env0 [] = 20"
    using Owned_cases [of env0 "[]"] by (simp add: env0_def b00_def b80_def)
  have 2: "Node_Owned env_wrapped [] = 8"
    using Owned_cases [of env_wrapped "[]"] by (simp add: env_wrapped_def env0_def bC0_def b80_def)
  have 3: "Node_Owned env_same [] = 30"
    using Owned_cases [of env_same "[]"]
    by (simp add: env_same_def env0_def b80_def Remote_less_def string_bytes_def)
  have 4: "Node_Owned env_below [] = 0"
    using Owned_cases [of env_below "[]"]
    by (simp add: env_below_def env0_def b80_def Remote_less_def string_bytes_def)
  from 1 2 3 4 show ?thesis by simp
qed

section \<open>Node.migrate\<close>

text \<open>
  When one of the gates fails the tick returns the node as it is, or, when the RPC
  failed, with the successor removed. When all pass, the tick is \<open>changePosition\<close> on the
  wanted position.
\<close>

lemma migrate_not_gated:
  assumes "\<not> migrate_gates E now self"
  shows "Node_migrate E now now' self = self
       \<or> (CallOwned E (calls self) (GetSuccessor E (calls self)) = None
          \<and> Node_migrate E now now' self
              = self\<lparr>calls := calls self @ [RemoveNode (GetSuccessor E (calls self))]\<rparr>)"
proof (cases "now + (- 1) * migrateWaitFactor * syncInterval
              > Max64 (lastSync self) (lastReroute self) (lastMigrate self)")
  case False
  then show ?thesis by (simp add: Node_migrate_def Let_def)
next
  case q: True
  show ?thesis
  proof (cases "CallOwned E (calls self) (GetSuccessor E (calls self))")
    case None
    with q show ?thesis by (simp add: Node_migrate_def Let_def)
  next
    case (Some succSize)
    obtain wantedPos existed where
      t: "migrate_target E (calls self) (GetSuccessor E (calls self)) (Node_Owned E (calls self)) succSize
          = (wantedPos, existed)"
      by (cases "migrate_target E (calls self) (GetSuccessor E (calls self)) (Node_Owned E (calls self)) succSize")
    from assms q Some t have
      "\<not> (Node_Owned E (calls self) > 10
          \<and> real_of_int (Node_Owned E (calls self)) > real_of_int succSize * migrateHysteresis
          \<and> existed
          \<and> BetweenIE wantedPos (Pos (GetPredecessor E (calls self))) (GetPosition E (calls self)))"
      by (simp add: migrate_gates_def Let_def Max64_def migrateHysteresis_def)
    then have "Node_migrate E now now' self = self"
      using q Some t by (auto simp add: Node_migrate_def Let_def)
    then show ?thesis by simp
  qed
qed

lemma migrate_gated_change:
  assumes "migrate_gates E now self"
  shows "Node_migrate E now now' self
         = Node_changePosition E now'
             (fst (migrate_target E (calls self) (GetSuccessor E (calls self))
                     (Node_Owned E (calls self))
                     (the (CallOwned E (calls self) (GetSuccessor E (calls self))))))
             self"
proof -
  from assms obtain succSize where
    Some: "CallOwned E (calls self) (GetSuccessor E (calls self)) = Some succSize"
    by (cases "CallOwned E (calls self) (GetSuccessor E (calls self))")
       (simp_all add: migrate_gates_def Let_def)
  obtain wantedPos existed where
    t: "migrate_target E (calls self) (GetSuccessor E (calls self)) (Node_Owned E (calls self)) succSize
        = (wantedPos, existed)"
    by (cases "migrate_target E (calls self) (GetSuccessor E (calls self)) (Node_Owned E (calls self)) succSize")
  from assms Some t have g:
    "now + (- 1) * migrateWaitFactor * syncInterval
       > Max64 (lastSync self) (lastReroute self) (lastMigrate self)"
    "Node_Owned E (calls self) > 10"
    "real_of_int (Node_Owned E (calls self)) > real_of_int succSize * migrateHysteresis"
    "existed"
    "BetweenIE wantedPos (Pos (GetPredecessor E (calls self))) (GetPosition E (calls self))"
    by (simp_all add: migrate_gates_def Let_def Max64_def migrateHysteresis_def)
  show ?thesis using g Some t by (simp add: Node_migrate_def Let_def)
qed

text \<open>
  Claim C4. A migration tick calls \<open>SetPosition\<close> only if all gates pass: the quiescence
  window has elapsed, the RPC \<open>DHash.Owned\<close> on the successor succeeded, \<open>mySize > 10\<close>,
  \<open>mySize > succSize * 1.5\<close>, a marker existed at the requested rank, and the wanted
  position lies strictly inside the circular open interval (pred.Pos, self.Pos). In every
  other case the tick leaves the node as it is, except that a failed RPC removes the
  successor.
\<close>

theorem migrate_gated:
  "((\<exists>p. SetPosition p \<in> set (drop (length (calls self)) (calls (Node_migrate E now now' self))))
      \<longrightarrow> migrate_gates E now self)
   \<and> (\<not> migrate_gates E now self \<longrightarrow>
        Node_migrate E now now' self = self
        \<or> (CallOwned E (calls self) (GetSuccessor E (calls self)) = None
           \<and> Node_migrate E now now' self
               = self\<lparr>calls := calls self @ [RemoveNode (GetSuccessor E (calls self))]\<rparr>))"
proof (intro conjI impI)
  assume "\<not> migrate_gates E now self"
  then show "Node_migrate E now now' self = self
        \<or> (CallOwned E (calls self) (GetSuccessor E (calls self)) = None
           \<and> Node_migrate E now now' self
               = self\<lparr>calls := calls self @ [RemoveNode (GetSuccessor E (calls self))]\<rparr>)"
    by (rule migrate_not_gated)
next
  assume ex: "\<exists>p. SetPosition p \<in> set (drop (length (calls self)) (calls (Node_migrate E now now' self)))"
  show "migrate_gates E now self"
  proof (rule ccontr)
    assume "\<not> migrate_gates E now self"
    from migrate_not_gated [OF this, of now'] ex show False by auto
  qed
qed

text \<open>
  On \<open>node0\<close> five seconds after the last change all gates pass and the node moves to
  \<open>40..\<close>; one second after it the quiescence gate fails and the node is unchanged.
\<close>

lemma migrate_env0_value: "Node_migrate env0 5000000000 6000000000 node0 =
   node0\<lparr>calls := [SetPosition b40, MigrateListenerCall 9 b80 b40], lastMigrate := 6000000000\<rparr>"
  by (simp add: Node_migrate_def Let_def env0_def node0_def Max64_def migrateWaitFactor_def
      syncInterval_def Node_Owned_def migrateHysteresis_def migrate_target_def signed_divide_int_def
      BetweenIE_def Node_changePosition_eq murmur_Size_def b00_def b40_def b80_def)

theorem migrate_gated_witness:
  "migrate_gates env0 5000000000 node0
   \<and> \<not> migrate_gates env0 1000000000 node0
   \<and> Node_migrate env0 1000000000 1000000001 node0 = node0"
proof -
  have "\<exists>p. SetPosition p \<in> set (drop (length (calls node0)) (calls (Node_migrate env0 5000000000 6000000000 node0)))"
    unfolding migrate_env0_value by (simp add: node0_def)
  with migrate_gated [of node0 env0 5000000000 6000000000] have 1: "migrate_gates env0 5000000000 node0"
    by blast
  have 2: "\<not> migrate_gates env0 1000000000 node0"
    by (simp add: migrate_gates_def Let_def env0_def node0_def migrateWaitFactor_def syncInterval_def)
  have "CallOwned env0 (calls node0) (GetSuccessor env0 (calls node0)) \<noteq> None"
    by (simp add: env0_def)
  with migrate_gated [of node0 env0 1000000000 1000000001] 2
  have 3: "Node_migrate env0 1000000000 1000000001 node0 = node0" by blast
  from 1 2 3 show ?thesis by simp
qed

section \<open>Node.owners and Node.clean\<close>

text \<open>
  The loop of \<open>clean\<close> appends one sync for each owner, in order. The flag \<open>isOwner\<close> of
  \<open>owners\<close> says whether an owner has the address of the node.
\<close>

lemma clean_loop_calls:
  "snd (snd (clean_loop E nextKey owners index rest (deleted, put, h)))
   = h @ map Run (map (clean_sync nextKey owners) (enumerate index rest))"
proof (induction rest arbitrary: index deleted put h)
  case Nil
  show ?case by simp
next
  case (Cons owner rest)
  have eq: "(int index = int (length owners) - 2) = (index + 2 = length owners)" by auto
  show ?case
    by (simp add: Let_def Cons.IH clean_sync_def eq)
qed

lemma syncs_of_append: "syncs_of (xs @ ys) = syncs_of xs @ syncs_of ys"
  by (induction xs rule: syncs_of.induct) simp_all

lemma syncs_of_Run: "syncs_of (map Run ss) = ss"
  by (induction ss) simp_all

lemma syncs_of_CleanListener: "syncs_of (map (\<lambda>l. CleanListenerCall l d p) ls) = []"
  by (induction ls) simp_all

lemma owners_loop_isOwner:
  assumes "owners_loop E h i (os, b) = (os', b')" and "length os = i"
    and "b \<longleftrightarrow> (\<exists>w\<in>set os. Addr w = GetAddr E)"
  shows "b' \<longleftrightarrow> (\<exists>w\<in>set os'. Addr w = GetAddr E)"
  using assms
proof (induction "nat (Redundancy E) - i" arbitrary: i os b)
  case 0
  then have "\<not> int i < Redundancy E" by simp
  then have "owners_loop E h i (os, b) = (os, b)" by (subst owners_loop.simps) simp
  with "0.prems" show ?case by simp
next
  case (Suc d)
  then have lt: "int i < Redundancy E" by simp
  define x where "x = GetSuccessorForRemote E h (os ! (i - 1))"
  define b2 where "b2 = (if Addr x = GetAddr E then True else b)"
  have nth: "(os @ [x]) ! i = x" using Suc.prems(2) by (simp add: nth_append)
  have step: "owners_loop E h i (os, b) = owners_loop E h (i + 1) (os @ [x], b2)"
    using lt nth by (subst owners_loop.simps) (simp add: Let_def x_def b2_def)
  have inv: "b2 \<longleftrightarrow> (\<exists>w\<in>set (os @ [x]). Addr w = GetAddr E)"
    using Suc.prems(3) by (auto simp add: b2_def)
  show ?case
  proof (rule Suc.hyps(1) [of "i + 1" "os @ [x]" b2])
    show "d = nat (Redundancy E) - (i + 1)" using Suc.hyps(2) by simp
    show "owners_loop E h (i + 1) (os @ [x], b2) = (os', b')"
      using Suc.prems(1) step by simp
    show "length (os @ [x]) = i + 1" using Suc.prems(2) by simp
    show "b2 = (\<exists>w\<in>set (os @ [x]). Addr w = GetAddr E)" by (rule inv)
  qed
qed

lemma Node_owners_isOwner:
  "snd (Node_owners E h key) \<longleftrightarrow> (\<exists>w\<in>set (fst (Node_owners E h key)). Addr w = GetAddr E)"
proof -
  obtain os' b' where r: "Node_owners E h key = (os', b')" by (cases "Node_owners E h key")
  then have "owners_loop E h 1 ([GetSuccessorFor E h key],
      if Addr (GetSuccessorFor E h key) = GetAddr E then True else False) = (os', b')"
    by (simp add: Node_owners_def Let_def)
  then have "b' \<longleftrightarrow> (\<exists>w\<in>set os'. Addr w = GetAddr E)"
    by (rule owners_loop_isOwner) simp_all
  with r show ?thesis by simp
qed

text \<open>
  Claim C6. On a clean tick that finds a first stored key \<open>nextKey\<close> circularly after the
  position of the node: if the node is among the owners of \<open>nextKey\<close>, the tick changes
  nothing and runs no sync; otherwise the syncs it runs are, for each owner in order, a
  push of the arc from \<open>nextKey\<close> to the position of the primary owner to that owner, with
  \<open>Destroy\<close> enabled on exactly the second-to-last owner of the list. The calls made
  before the tick are kept.
\<close>

theorem clean_syncs:
  assumes "Node_circularNext E (calls self) (GetPosition E (calls self)) = (nextKey, True)"
  shows "take (length (calls self)) (calls (Node_clean E self)) = calls self
       \<and> ((\<exists>w\<in>set (fst (Node_owners E (calls self) nextKey)). Addr w = GetAddr E) \<longrightarrow>
            Node_clean E self = self)
       \<and> (\<not> (\<exists>w\<in>set (fst (Node_owners E (calls self) nextKey)). Addr w = GetAddr E) \<longrightarrow>
            syncs_of (drop (length (calls self)) (calls (Node_clean E self)))
            = map (clean_sync nextKey (fst (Node_owners E (calls self) nextKey)))
                (enumerate 0 (fst (Node_owners E (calls self) nextKey))))"
proof -
  let ?h = "calls self"
  obtain owners isOwner where ow: "Node_owners E ?h nextKey = (owners, isOwner)"
    by (cases "Node_owners E ?h nextKey")
  have io: "isOwner \<longleftrightarrow> (\<exists>w\<in>set owners. Addr w = GetAddr E)"
    using Node_owners_isOwner [of E ?h nextKey] ow by simp
  show ?thesis
  proof (cases isOwner)
    case True
    then have "Node_clean E self = self"
      by (simp add: Node_clean_def Let_def assms ow)
    with True io ow show ?thesis by simp
  next
    case False
    obtain deleted put h' where cl: "clean_loop E nextKey owners 0 owners (0, 0, ?h) = (deleted, put, h')"
      by (cases "clean_loop E nextKey owners 0 owners (0, 0, ?h)")
    have h': "h' = ?h @ map Run (map (clean_sync nextKey owners) (enumerate 0 owners))"
      using clean_loop_calls [of E nextKey owners 0 owners 0 0 ?h] cl by simp
    have c: "calls (Node_clean E self) =
        h' @ (if deleted \<noteq> 0 \<or> put \<noteq> 0
              then map (\<lambda>l. CleanListenerCall l deleted put) (cleanListeners self) else [])"
      using False by (simp add: Node_clean_def Let_def assms ow cl)
    have 1: "take (length ?h) (calls (Node_clean E self)) = ?h"
      unfolding c h' by simp
    have 2: "syncs_of (drop (length ?h) (calls (Node_clean E self)))
             = map (clean_sync nextKey owners) (enumerate 0 owners)"
      unfolding c h'
      by (simp add: syncs_of_append syncs_of_Run syncs_of_CleanListener del: map_map)
    from False io ow 1 2 show ?thesis by simp
  qed
qed

text \<open>
  With two owners \<open>b\<close> and \<open>a\<close>: the node \<open>a\<close> is an owner and does nothing; a node \<open>c\<close>
  pushes to \<open>b\<close> with \<open>Destroy\<close>, then to \<open>a\<close> without.
\<close>

lemma owners_env0: "Node_owners env0 [] bC0 = ([\<lparr>Pos = b00, Addr = ''b''\<rparr>, \<lparr>Pos = b80, Addr = ''a''\<rparr>], True)"
  by (simp add: Node_owners_def Let_def owners_loop.simps env0_def)

lemma owners_env_other: "Node_owners env_other [] bC0 = ([\<lparr>Pos = b00, Addr = ''b''\<rparr>, \<lparr>Pos = b80, Addr = ''a''\<rparr>], False)"
  by (simp add: Node_owners_def Let_def owners_loop.simps env0_def env_other_def)

theorem clean_syncs_witness:
  "Node_clean env0 node0 = node0
   \<and> syncs_of (calls (Node_clean env_other node0))
     = [\<lparr>source = LocalTree, destination = RemoteTree \<lparr>Pos = b00, Addr = ''b''\<rparr>,
          fromKey = bC0, toKey = b00, destroy = True\<rparr>,
        \<lparr>source = LocalTree, destination = RemoteTree \<lparr>Pos = b80, Addr = ''a''\<rparr>,
          fromKey = bC0, toKey = b00, destroy = False\<rparr>]"
proof -
  have n0: "Node_circularNext env0 (calls node0) (GetPosition env0 (calls node0)) = (bC0, True)"
    by (simp add: Node_circularNext_def env0_def node0_def)
  have n1: "Node_circularNext env_other (calls node0) (GetPosition env_other (calls node0)) = (bC0, True)"
    by (simp add: Node_circularNext_def env0_def env_other_def node0_def)
  have c: "calls node0 = []" by (simp add: node0_def)
  have 1: "Node_clean env0 node0 = node0"
    using clean_syncs [OF n0] owners_env0 by (simp add: c env0_def)
  have 2: "syncs_of (calls (Node_clean env_other node0))
     = [\<lparr>source = LocalTree, destination = RemoteTree \<lparr>Pos = b00, Addr = ''b''\<rparr>,
          fromKey = bC0, toKey = b00, destroy = True\<rparr>,
        \<lparr>source = LocalTree, destination = RemoteTree \<lparr>Pos = b80, Addr = ''a''\<rparr>,
          fromKey = bC0, toKey = b00, destroy = False\<rparr>]"
    using clean_syncs [OF n1] owners_env_other
    by (simp add: c env0_def env_other_def clean_sync_def enumerate_eq_zip upt_rec)
  from 1 2 show ?thesis by simp
qed

end
